theory Spec2Isabelle
  imports Main "HOL-Library.AList"
begin

section \<open>Data model (types.ts)\<close>

text \<open>
  A stone colour is one of the two string literals \<^verbatim>\<open>'black'\<close> and \<^verbatim>\<open>'white'\<close>; both are
  truthy, so \<^verbatim>\<open>!board[key]\<close> holds exactly when the key is absent.

  A \<^verbatim>\<open>BoardState\<close> is a JavaScript object keyed by the string \<^verbatim>\<open>`${x},${y}`\<close>. The
  coordinates that reach the engine are integers (they come from \<^verbatim>\<open>Math.round\<close> or from
  \<^verbatim>\<open>i % size\<close>), on which the key is injective and \<^verbatim>\<open>key.split(',').map(Number)\<close> is its
  inverse, so a key is modelled as the pair of integers it prints. The object itself is an
  association list in insertion order, which is the order \<^verbatim>\<open>Object.entries\<close> and
  \<^verbatim>\<open>Object.keys\<close> enumerate: \<open>map_of\<close> reads a key, \<open>AList.update\<close> assigns (in place when the
  key exists, appended otherwise) and \<open>AList.delete\<close> is \<^verbatim>\<open>delete\<close>.
\<close>

datatype StoneColor = Black | White

type_synonym coord = "int \<times> int"

type_synonym BoardState = "(coord \<times> StoneColor) list"

record Move =
  mv_x :: int
  mv_y :: int
  mv_color :: StoneColor
  mv_captures :: "nat option"

record Captures =
  black :: nat
  white :: nat

section \<open>Go logic helpers (GameLog component)\<close>

definition getNeighbors :: "int \<Rightarrow> int \<Rightarrow> int \<Rightarrow> coord list" where
  "getNeighbors x y sz =
     (if x > 0 then [(x - 1, y)] else []) @
     (if x < sz - 1 then [(x + 1, y)] else []) @
     (if y > 0 then [(x, y - 1)] else []) @
     (if y < sz - 1 then [(x, y + 1)] else [])"

text \<open>
  The body of the \<^verbatim>\<open>forEach\<close> inside the \<^verbatim>\<open>while\<close> loop of \<^verbatim>\<open>getGroup\<close>: the loop state is
  the \<^verbatim>\<open>visited\<close> set, the \<^verbatim>\<open>group\<close> array and the \<^verbatim>\<open>queue\<close>.
\<close>

definition visitNeighbor ::
  "BoardState \<Rightarrow> StoneColor \<Rightarrow> coord \<Rightarrow> coord set \<times> coord list \<times> coord list
     \<Rightarrow> coord set \<times> coord list \<times> coord list" where
  "visitNeighbor b c n st =
     (case st of (visited, grp, queue) \<Rightarrow>
        if map_of b n = Some c \<and> n \<notin> visited
        then (insert n visited, grp @ [n], queue @ [n])
        else st)"

definition unvisited :: "BoardState \<Rightarrow> StoneColor \<Rightarrow> coord set \<Rightarrow> nat" where
  "unvisited b c visited = card {k \<in> fst ` set b. map_of b k = Some c \<and> k \<notin> visited}"

lemma unvisited_insert:
  assumes "map_of b n = Some c" "n \<notin> visited"
  shows "Suc (unvisited b c (insert n visited)) = unvisited b c visited"
proof -
  let ?A = "{k \<in> fst ` set b. map_of b k = Some c \<and> k \<notin> visited}"
  have fin: "finite ?A" by simp
  have "n \<in> fst ` set b" using assms(1) by (metis domI dom_map_of_conv_image_fst)
  hence mem: "n \<in> ?A" using assms by simp
  have "{k \<in> fst ` set b. map_of b k = Some c \<and> k \<notin> insert n visited} = ?A - {n}"
    by auto
  hence "unvisited b c (insert n visited) = card (?A - {n})"
    by (simp add: unvisited_def)
  also have "Suc \<dots> = card ?A" using fin mem by (rule card_Suc_Diff1)
  finally show ?thesis by (simp add: unvisited_def)
qed

lemma visitNeighbor_measure:
  "visitNeighbor b c n (v, g, q) = (v', g', q') \<Longrightarrow>
   2 * unvisited b c v' + length q' \<le> 2 * unvisited b c v + length q"
  using unvisited_insert [of b n c v]
  by (auto simp: visitNeighbor_def split: if_splits)

lemma fold_visitNeighbor_measure:
  "fold (visitNeighbor b c) ns (v, g, q) = (v', g', q') \<Longrightarrow>
   2 * unvisited b c v' + length q' \<le> 2 * unvisited b c v + length q"
proof (induction ns arbitrary: v g q)
  case Nil
  then show ?case by simp
next
  case (Cons n ns)
  obtain v1 g1 q1 where st: "visitNeighbor b c n (v, g, q) = (v1, g1, q1)"
    by (metis prod_cases3)
  from Cons.prems st have "fold (visitNeighbor b c) ns (v1, g1, q1) = (v', g', q')"
    by simp
  from Cons.IH [OF this] visitNeighbor_measure [OF st] show ?case by linarith
qed

text \<open>
  The \<^verbatim>\<open>while (queue.length > 0)\<close> loop of \<^verbatim>\<open>getGroup\<close>: \<^verbatim>\<open>queue.shift()\<close> takes the head,
  the neighbours are visited in the order \<^verbatim>\<open>getNeighbors\<close> returns them.
\<close>

function bfs ::
  "BoardState \<Rightarrow> StoneColor \<Rightarrow> int \<Rightarrow> coord set \<Rightarrow> coord list \<Rightarrow> coord list \<Rightarrow> coord list" where
  "bfs b c sz visited grp [] = grp"
| "bfs b c sz visited grp (cur # queue) =
     (case fold (visitNeighbor b c) (getNeighbors (fst cur) (snd cur) sz) (visited, grp, queue) of
        (visited', grp', queue') \<Rightarrow> bfs b c sz visited' grp' queue')"
  by pat_completeness auto
termination
proof (relation "measure (\<lambda>(b, c, sz, visited, grp, queue). 2 * unvisited b c visited + length queue)",
    goal_cases)
  case 1
  then show ?case by simp
next
  case (2 b c sz visited grp cur queue x1 x2 y1 y2)
  then have "fold (visitNeighbor b c) (getNeighbors (fst cur) (snd cur) sz) (visited, grp, queue)
               = (x1, y1, y2)"
    by simp
  from fold_visitNeighbor_measure [OF this] show ?case by simp
qed

definition getGroup :: "BoardState \<Rightarrow> int \<Rightarrow> int \<Rightarrow> int \<Rightarrow> coord list option" where
  "getGroup b startX startY sz =
     (case map_of b (startX, startY) of
        None \<Rightarrow> None
      | Some c \<Rightarrow> Some (bfs b c sz {(startX, startY)} [(startX, startY)] [(startX, startY)]))"

definition countLiberties :: "BoardState \<Rightarrow> coord list \<Rightarrow> int \<Rightarrow> nat" where
  "countLiberties b grp sz =
     card (fold (\<lambda>key. fold (\<lambda>n liberties. if map_of b n = None then insert n liberties
                                             else liberties)
                             (getNeighbors (fst key) (snd key) sz))
                grp {})"

section \<open>The game recorder (GameLog component)\<close>

text \<open>
  The recorder state of the component: the \<^verbatim>\<open>useState\<close> cells \<^verbatim>\<open>moves\<close>, \<^verbatim>\<open>board\<close>,
  \<^verbatim>\<open>captures\<close>, \<^verbatim>\<open>turn\<close> and the form's \<^verbatim>\<open>size\<close>. A handler reads the cells of the render it
  was created in and returns the state after its setters have run.
\<close>

record Recorder =
  moves :: "Move list"
  board :: BoardState
  captures :: Captures
  turn :: StoneColor
  boardSize :: int

definition resetRecorder :: "Recorder \<Rightarrow> Recorder" where
  "resetRecorder s =
     s\<lparr>moves := [], board := [], captures := \<lparr>black = 0, white = 0\<rparr>, turn := Black\<rparr>"

text \<open>The state of a freshly opened form for a given size.\<close>

definition initialRecorder :: "int \<Rightarrow> Recorder" where
  "initialRecorder sz =
     \<lparr>moves = [], board = [], captures = \<lparr>black = 0, white = 0\<rparr>, turn = Black, boardSize = sz\<rparr>"

definition opponentOf :: "StoneColor \<Rightarrow> StoneColor" where
  "opponentOf c = (if c = Black then White else Black)"

text \<open>\<^verbatim>\<open>c[color] += n\<close> and \<^verbatim>\<open>{...prev, [turn]: prev[turn] + n}\<close>.\<close>

definition addCaptures :: "StoneColor \<Rightarrow> nat \<Rightarrow> Captures \<Rightarrow> Captures" where
  "addCaptures c n cs =
     (case c of Black \<Rightarrow> cs\<lparr>black := black cs + n\<rparr> | White \<Rightarrow> cs\<lparr>white := white cs + n\<rparr>)"

text \<open>
  The three ways \<^verbatim>\<open>handleBoardClick\<close> ends: the silent \<^verbatim>\<open>return\<close> on an occupied cell
  (``Cannot place on top''), the \<^verbatim>\<open>alert\<close> and \<^verbatim>\<open>return\<close> of the suicide check, and the
  state update. The stone sound played in between is not part of the state.
\<close>

datatype ClickResult = OccupiedCell | SuicideMove | Accepted

text \<open>
  The body of \<^verbatim>\<open>neighbors.forEach\<close> in \<^verbatim>\<open>handleBoardClick\<close>; the loop state is the local
  copy \<^verbatim>\<open>newBoard\<close> and the counter \<^verbatim>\<open>capturedStones\<close>, incremented once per deleted key.
\<close>

definition liveCapture ::
  "int \<Rightarrow> StoneColor \<Rightarrow> coord \<Rightarrow> BoardState \<times> nat \<Rightarrow> BoardState \<times> nat" where
  "liveCapture sz opp n st =
     (case st of (newBoard, capturedStones) \<Rightarrow>
        if map_of newBoard n = Some opp then
          (case getGroup newBoard (fst n) (snd n) sz of
             None \<Rightarrow> st
           | Some grp \<Rightarrow>
               if countLiberties newBoard grp sz = 0
               then fold (\<lambda>k (nb, cnt). (AList.delete k nb, cnt + 1)) grp st
               else st)
        else st)"

text \<open>
  Lines 325 to 344 of \<^verbatim>\<open>handleBoardClick\<close>: the copy of the board with the stone of the player
  to move written at the clicked key, then the capture loop over the neighbours. The result
  is the local \<^verbatim>\<open>newBoard\<close> and \<^verbatim>\<open>capturedStones\<close> as the suicide check finds them.
\<close>

definition placeAndCapture :: "Recorder \<Rightarrow> int \<Rightarrow> int \<Rightarrow> BoardState \<times> nat" where
  "placeAndCapture s x y =
     (let newBoard = AList.update (x, y) (turn s) (board s);
          neighbors = getNeighbors x y (boardSize s);
          opp = opponentOf (turn s)
      in fold (liveCapture (boardSize s) opp) neighbors (newBoard, 0))"

definition handleBoardClick :: "Recorder \<Rightarrow> int \<Rightarrow> int \<Rightarrow> ClickResult \<times> Recorder" where
  "handleBoardClick s x y =
     (if map_of (board s) (x, y) \<noteq> None then (OccupiedCell, s)
      else
        case placeAndCapture s x y of (newBoard, capturedStones) \<Rightarrow>
          if (case getGroup newBoard x y (boardSize s) of
                None \<Rightarrow> False
              | Some myGroup \<Rightarrow> countLiberties newBoard myGroup (boardSize s) = 0)
          then (SuicideMove, s)
          else
            (Accepted,
             s\<lparr>board := newBoard,
               moves := moves s @
                  [\<lparr>mv_x = x, mv_y = y, mv_color = turn s, mv_captures = Some capturedStones\<rparr>],
               captures := (if capturedStones > 0
                            then addCaptures (turn s) capturedStones (captures s)
                            else captures s),
               turn := opponentOf (turn s)\<rparr>))"

text \<open>The body of \<^verbatim>\<open>neighbors.forEach\<close> in \<^verbatim>\<open>replayGame\<close>; the loop state is \<^verbatim>\<open>b\<close> and \<^verbatim>\<open>c\<close>.\<close>

definition replayCapture ::
  "int \<Rightarrow> StoneColor \<Rightarrow> coord \<Rightarrow> BoardState \<times> Captures \<Rightarrow> BoardState \<times> Captures" where
  "replayCapture sz col n st =
     (case st of (b, c) \<Rightarrow>
        if map_of b n = Some (opponentOf col) then
          (case getGroup b (fst n) (snd n) sz of
             None \<Rightarrow> st
           | Some grp \<Rightarrow>
               if countLiberties b grp sz = 0
               then (fold AList.delete grp b, addCaptures col (length grp) c)
               else st)
        else st)"

definition replayMove :: "int \<Rightarrow> Move \<Rightarrow> BoardState \<times> Captures \<Rightarrow> BoardState \<times> Captures" where
  "replayMove sz m st =
     (case st of (b, c) \<Rightarrow>
        fold (replayCapture sz (mv_color m)) (getNeighbors (mv_x m) (mv_y m) sz)
          (AList.update (mv_x m, mv_y m) (mv_color m) b, c))"

definition replayGame :: "Move list \<Rightarrow> int \<Rightarrow> BoardState \<times> Captures" where
  "replayGame moveList sz = fold (replayMove sz) moveList ([], \<lparr>black = 0, white = 0\<rparr>)"

definition undoLastMove :: "Recorder \<Rightarrow> Recorder" where
  "undoLastMove s =
     (if length (moves s) = 0 then s
      else
        let newMoves = butlast (moves s);
            (b, c) = replayGame newMoves (boardSize s)
        in s\<lparr>board := b, captures := c, moves := newMoves,
              turn := (if length newMoves mod 2 = 0 then Black else White)\<rparr>)"

section \<open>The board widget's click gate (GoBoard component)\<close>

text \<open>
  \<^verbatim>\<open>GoBoard.handleBoardClick\<close> after the pixel arithmetic: \<open>xGrid\<close> and \<open>yGrid\<close> are the
  results of \<^verbatim>\<open>Math.round\<close>. The handler is absent (\<open>None\<close>) when the prop is not passed.
\<close>

definition boardClick ::
  "bool \<Rightarrow> (int \<Rightarrow> int \<Rightarrow> 's \<Rightarrow> 's) option \<Rightarrow> int \<Rightarrow> int \<Rightarrow> int \<Rightarrow> 's \<Rightarrow> 's" where
  "boardClick readOnly onIntersectionClick sz xGrid yGrid st =
     (if readOnly then st
      else case onIntersectionClick of
        None \<Rightarrow> st
      | Some h \<Rightarrow>
          if xGrid \<ge> 0 \<and> xGrid < sz \<and> yGrid \<ge> 0 \<and> yGrid < sz then h xGrid yGrid st
          else st)"

text \<open>
  The other way a click reaches the handler: the invisible target number \<open>i\<close> of the
  \<^verbatim>\<open>size * size\<close> interaction targets calls it with \<^verbatim>\<open>i % size\<close> and
  \<^verbatim>\<open>Math.floor(i / size)\<close>.
\<close>

definition targetCoord :: "int \<Rightarrow> int \<Rightarrow> coord" where
  "targetCoord sz i = (i mod sz, i div sz)"

section \<open>The drill check (App component)\<close>

record Feedback =
  missing :: "coord list"
  extra :: "coord list"
  correct :: "coord list"

text \<open>The two \<^verbatim>\<open>forEach\<close> bodies of \<^verbatim>\<open>checkDrill\<close>.\<close>

definition checkTarget :: "BoardState \<Rightarrow> coord \<times> StoneColor \<Rightarrow> Feedback \<Rightarrow> Feedback" where
  "checkTarget stones e f =
     (case e of (key, col) \<Rightarrow>
        if map_of stones key = Some col then f\<lparr>correct := correct f @ [key]\<rparr>
        else f\<lparr>missing := missing f @ [key]\<rparr>)"

definition checkStone :: "BoardState \<Rightarrow> BoardState \<Rightarrow> coord \<Rightarrow> Feedback \<Rightarrow> Feedback" where
  "checkStone drillTarget stones key f =
     (if map_of drillTarget key = None then f\<lparr>extra := extra f @ [key]\<rparr>
      else if map_of stones key \<noteq> map_of drillTarget key then f\<lparr>extra := extra f @ [key]\<rparr>
      else f)"

definition checkDrill :: "BoardState option \<Rightarrow> BoardState \<Rightarrow> Feedback option" where
  "checkDrill drillTarget stones =
     (case drillTarget of
        None \<Rightarrow> None
      | Some target \<Rightarrow>
          Some (fold (checkStone target stones) (map fst stones)
                  (fold (checkTarget stones) target \<lparr>missing = [], extra = [], correct = []\<rparr>)))"

section \<open>Games and tallies\<close>

text \<open>
  A live game: the clicks are applied in order from a recorder state, and the result is the
  final state when every click was accepted, \<open>None\<close> as soon as one is rejected.
\<close>

fun playAll :: "Recorder \<Rightarrow> coord list \<Rightarrow> Recorder option" where
  "playAll s [] = Some s"
| "playAll s (p # ps) =
     (case handleBoardClick s (fst p) (snd p) of
        (Accepted, s') \<Rightarrow> playAll s' ps
      | (_, _) \<Rightarrow> None)"

text \<open>
  The capture tally of a move list as the data model defines it: the sum of the moves'
  \<^verbatim>\<open>captures\<close> fields, grouped by the colour of the mover (an absent field counts 0).
\<close>

definition capturedCount :: "Move \<Rightarrow> nat" where
  "capturedCount m = (case mv_captures m of None \<Rightarrow> 0 | Some n \<Rightarrow> n)"

definition tally :: "Move list \<Rightarrow> Captures" where
  "tally ms =
     \<lparr>black = sum_list (map capturedCount (filter (\<lambda>m. mv_color m = Black) ms)),
      white = sum_list (map capturedCount (filter (\<lambda>m. mv_color m = White) ms))\<rparr>"

text \<open>The turn that \<^verbatim>\<open>undoLastMove\<close> derives from the length of a move list.\<close>

definition turnAfter :: "Move list \<Rightarrow> StoneColor" where
  "turnAfter ms = (if length ms mod 2 = 0 then Black else White)"

section \<open>Vocabulary of the statements\<close>

text \<open>
  The board of size \<open>sz\<close> and 4-directional adjacency, stated without reference to
  \<open>getNeighbors\<close>.
\<close>

definition onBoard :: "int \<Rightarrow> coord \<Rightarrow> bool" where
  "onBoard sz p \<longleftrightarrow> 0 \<le> fst p \<and> fst p < sz \<and> 0 \<le> snd p \<and> snd p < sz"

definition adjacent :: "coord \<Rightarrow> coord \<Rightarrow> bool" where
  "adjacent p q \<longleftrightarrow> \<bar>fst p - fst q\<bar> + \<bar>snd p - snd q\<bar> = 1"

text \<open>
  One step of the flood fill for colour \<open>c\<close>: from a cell to a neighbour that holds a stone
  of colour \<open>c\<close>.
\<close>

definition stoneStep :: "BoardState \<Rightarrow> StoneColor \<Rightarrow> int \<Rightarrow> (coord \<times> coord) set" where
  "stoneStep b c sz =
     {(a, n). n \<in> set (getNeighbors (fst a) (snd a) sz) \<and> map_of b n = Some c}"

text \<open>
  Groups and liberties as the data model defines them, without reference to the flood fill:
  two on-board stones of colour \<open>c\<close> are linked when they are 4-directionally adjacent, the
  group of a stone is everything a chain of links reaches from it, the liberties of a set of
  cells are the empty on-board cells adjacent to one of them, and the dead stones around a
  point are the groups of colour \<open>opp\<close> that contain a neighbour of the point and have no
  liberty.
\<close>

definition linked :: "BoardState \<Rightarrow> int \<Rightarrow> StoneColor \<Rightarrow> (coord \<times> coord) set" where
  "linked b sz c =
     {(p, q). onBoard sz p \<and> onBoard sz q \<and> adjacent p q \<and>
              map_of b p = Some c \<and> map_of b q = Some c}"

definition stoneGroup :: "BoardState \<Rightarrow> int \<Rightarrow> StoneColor \<Rightarrow> coord \<Rightarrow> coord set" where
  "stoneGroup b sz c p = {q. (p, q) \<in> (linked b sz c)\<^sup>*}"

definition libertySet :: "BoardState \<Rightarrow> int \<Rightarrow> coord set \<Rightarrow> coord set" where
  "libertySet b sz G = {n. onBoard sz n \<and> map_of b n = None \<and> (\<exists>k \<in> G. adjacent k n)}"

definition deadStones :: "BoardState \<Rightarrow> int \<Rightarrow> StoneColor \<Rightarrow> coord \<Rightarrow> coord set" where
  "deadStones b sz opp p =
     {k. \<exists>n. onBoard sz n \<and> adjacent p n \<and> map_of b n = Some opp \<and>
             libertySet b sz (stoneGroup b sz opp n) = {} \<and> k \<in> stoneGroup b sz opp n}"

text \<open>
  The board on which the capture loop of \<^verbatim>\<open>handleBoardClick\<close> starts: the stone of the
  player to move placed at the clicked cell (the post-placement position).
\<close>

definition placed :: "Recorder \<Rightarrow> int \<Rightarrow> int \<Rightarrow> BoardState" where
  "placed s x y = AList.update (x, y) (turn s) (board s)"

text \<open>
  The stones that capture resolution removes when every neighbour is judged on one and the
  same board \<open>b\<close>: the union of the groups of the neighbours in \<open>ns\<close> that hold colour \<open>opp\<close>
  and whose group has no liberty on \<open>b\<close>. The code instead judges each neighbour on the
  board as the earlier neighbours left it.
\<close>

definition capturedSet :: "BoardState \<Rightarrow> int \<Rightarrow> StoneColor \<Rightarrow> coord list \<Rightarrow> coord set" where
  "capturedSet b sz opp ns =
     (\<Union>n \<in> set ns.
        if map_of b n = Some opp then
          (case getGroup b (fst n) (snd n) sz of
             None \<Rightarrow> {}
           | Some g \<Rightarrow> if countLiberties b g sz = 0 then set g else {})
        else {})"

definition capturedBy :: "Recorder \<Rightarrow> int \<Rightarrow> int \<Rightarrow> coord set" where
  "capturedBy s x y =
     capturedSet (placed s x y) (boardSize s) (opponentOf (turn s))
       (getNeighbors x y (boardSize s))"

text \<open>\<open>b\<close> is the board \<open>nb\<close> with the cells of \<open>D\<close> emptied.\<close>

definition removedFrom :: "BoardState \<Rightarrow> coord set \<Rightarrow> BoardState \<Rightarrow> bool" where
  "removedFrom nb D b \<longleftrightarrow> (\<forall>k. map_of b k = (if k \<in> D then None else map_of nb k))"

text \<open>
  A finite set of on-board stones of colour \<open>c\<close> that contains every stone of colour \<open>c\<close>
  next to one of its members: a union of whole groups.
\<close>

definition closedGroups :: "BoardState \<Rightarrow> int \<Rightarrow> StoneColor \<Rightarrow> coord set \<Rightarrow> bool" where
  "closedGroups b sz c D \<longleftrightarrow>
     finite D \<and> (\<forall>k \<in> D. map_of b k = Some c \<and> onBoard sz k) \<and>
     (\<forall>k \<in> D. stoneStep b c sz `` {k} \<subseteq> D)"

section \<open>Example states\<close>

text \<open>
  A 9x9 game after Black (1,0), White (5,5), Black (0,1): the corner point (0,0) is empty,
  both its neighbours are Black, and White is to play.
\<close>

definition cornerEye :: Recorder where
  "cornerEye =
     \<lparr>moves = [\<lparr>mv_x = 1, mv_y = 0, mv_color = Black, mv_captures = Some 0\<rparr>,
               \<lparr>mv_x = 5, mv_y = 5, mv_color = White, mv_captures = Some 0\<rparr>,
               \<lparr>mv_x = 0, mv_y = 1, mv_color = Black, mv_captures = Some 0\<rparr>],
      board = [((1, 0), Black), ((5, 5), White), ((0, 1), Black)],
      captures = \<lparr>black = 0, white = 0\<rparr>, turn = White, boardSize = 9\<rparr>"

text \<open>An L-shaped Black group in the corner of a 9x9 board, and a distant White stone.\<close>

definition cornerL :: BoardState where
  "cornerL = [((0, 0), Black), ((1, 0), Black), ((1, 1), Black), ((5, 5), White)]"

text \<open>
  A 9x9 game after Black (1,0), White (0,0): the White corner stone has one liberty left,
  at (0,1), and Black is to play.
\<close>

definition cornerAtari :: Recorder where
  "cornerAtari =
     \<lparr>moves = [\<lparr>mv_x = 1, mv_y = 0, mv_color = Black, mv_captures = Some 0\<rparr>,
               \<lparr>mv_x = 0, mv_y = 0, mv_color = White, mv_captures = Some 0\<rparr>],
      board = [((1, 0), Black), ((0, 0), White)],
      captures = \<lparr>black = 0, white = 0\<rparr>, turn = Black, boardSize = 9\<rparr>"

text \<open>
  A 9x9 game after Black (0,1), White (0,0), Black (1,1), White (1,0): the two White stones
  on the edge form one group whose last liberty is (2,0), and Black is to play.
\<close>

definition sideAtari :: Recorder where
  "sideAtari =
     \<lparr>moves = [\<lparr>mv_x = 0, mv_y = 1, mv_color = Black, mv_captures = Some 0\<rparr>,
               \<lparr>mv_x = 0, mv_y = 0, mv_color = White, mv_captures = Some 0\<rparr>,
               \<lparr>mv_x = 1, mv_y = 1, mv_color = Black, mv_captures = Some 0\<rparr>,
               \<lparr>mv_x = 1, mv_y = 0, mv_color = White, mv_captures = Some 0\<rparr>],
      board = [((0, 1), Black), ((0, 0), White), ((1, 1), Black), ((1, 0), White)],
      captures = \<lparr>black = 0, white = 0\<rparr>, turn = Black, boardSize = 9\<rparr>"

section \<open>Rejected moves\<close>

text \<open>
  Claim C4. A click on a cell that already holds a stone is rejected by the first guard of
  the move applier, and the recorder state (board, move list, capture tally, turn) that the
  handler leaves behind is the one it found.
\<close>

theorem occupied_cell_rejected:
  assumes "map_of (board s) (x, y) \<noteq> None"
  shows "handleBoardClick s x y = (OccupiedCell, s)"
  using assms by (simp add: handleBoardClick_def)

theorem occupied_cell_rejected_witness:
  "map_of (board cornerEye) (1, 0) \<noteq> None \<and>
   handleBoardClick cornerEye 1 0 = (OccupiedCell, cornerEye)"
proof -
  have h: "map_of (board cornerEye) (1, 0) \<noteq> None"
    by (simp add: cornerEye_def)
  from occupied_cell_rejected [OF h] h show ?thesis by simp
qed

text \<open>
  Claim C3. On an empty cell, when the group of the placed stone has no liberty on the
  board left by the capture loop, the click is rejected as a suicide and the recorder state
  is the one before the click: the placement and the captures were made on a local copy
  that is dropped.
\<close>

theorem suicide_rejected:
  assumes "map_of (board s) (x, y) = None"
    and "getGroup (fst (placeAndCapture s x y)) x y (boardSize s) = Some myGroup"
    and "countLiberties (fst (placeAndCapture s x y)) myGroup (boardSize s) = 0"
  shows "handleBoardClick s x y = (SuicideMove, s)"
proof (cases "placeAndCapture s x y")
  case (Pair newBoard capturedStones)
  with assms show ?thesis by (simp add: handleBoardClick_def)
qed

theorem suicide_rejected_witness:
  "map_of (board cornerEye) (0, 0) = None \<and>
   getGroup (fst (placeAndCapture cornerEye 0 0)) 0 0 (boardSize cornerEye) = Some [(0, 0)] \<and>
   countLiberties (fst (placeAndCapture cornerEye 0 0)) [(0, 0)] (boardSize cornerEye) = 0 \<and>
   handleBoardClick cornerEye 0 0 = (SuicideMove, cornerEye)"
proof -
  have h1: "map_of (board cornerEye) (0, 0) = None"
    by (simp add: cornerEye_def)
  have h2: "getGroup (fst (placeAndCapture cornerEye 0 0)) 0 0 (boardSize cornerEye)
              = Some [(0, 0)]"
    by code_simp
  have h3: "countLiberties (fst (placeAndCapture cornerEye 0 0)) [(0, 0)] (boardSize cornerEye)
              = 0"
    by code_simp
  from suicide_rejected [OF h1 h2 h3] h1 h2 h3 show ?thesis by simp
qed

text \<open>Every click that reaches the recorder is on the board.\<close>

lemma boardClick_inside:
  "onBoard sz (x, y) \<Longrightarrow> boardClick False (Some h) sz x y st = h x y st"
  by (simp add: boardClick_def onBoard_def)

lemma targetCoord_onBoard:
  assumes "0 < sz" and "0 \<le> i" and "i < sz * sz"
  shows "onBoard sz (targetCoord sz i)"
proof -
  have "i div sz < sz"
  proof (rule ccontr)
    assume "\<not> i div sz < sz"
    hence "sz * sz \<le> sz * (i div sz)"
      using assms(1) by (intro mult_left_mono) simp_all
    moreover have "sz * (i div sz) + i mod sz = i" by simp
    moreover have "0 \<le> i mod sz" using assms(1) by simp
    ultimately show False using assms(3) by linarith
  qed
  moreover have "0 \<le> i div sz"
    using assms(1,2) by (simp add: pos_imp_zdiv_nonneg_iff)
  ultimately show ?thesis
    using assms(1) by (simp add: onBoard_def targetCoord_def)
qed
lemma resetRecorder_initial: "resetRecorder s = initialRecorder (boardSize s)"
  by (simp add: resetRecorder_def initialRecorder_def)

text \<open>
  Claim C5, as stated, fails on the move applier: it has no bounds check, and a click at
  (-1, 0) on the empty 9x9 recorder is accepted and changes the board.
\<close>

theorem out_of_bounds_accepted_by_applier:
  "handleBoardClick (initialRecorder 9) (- 1) 0 =
     (Accepted,
      \<lparr>moves = [\<lparr>mv_x = - 1, mv_y = 0, mv_color = Black, mv_captures = Some 0\<rparr>],
       board = [((- 1, 0), Black)], captures = \<lparr>black = 0, white = 0\<rparr>,
       turn = White, boardSize = 9\<rparr>)"
  by code_simp

text \<open>
  Claim C5, amended. The bounds are enforced by the board widget: a click whose grid
  coordinate lies outside the board on either axis is dropped there, the handler is not
  called, and the state is unchanged.
\<close>

theorem out_of_bounds_click_dropped:
  assumes "\<not> (0 \<le> xGrid \<and> xGrid < sz \<and> 0 \<le> yGrid \<and> yGrid < sz)"
  shows "boardClick readOnly h sz xGrid yGrid st = st"
  using assms by (auto simp: boardClick_def split: option.splits)

theorem out_of_bounds_click_dropped_witness:
  "\<not> (0 \<le> (- 1 :: int) \<and> (- 1 :: int) < 9 \<and> 0 \<le> (0 :: int) \<and> (0 :: int) < 9) \<and>
   boardClick False (Some (\<lambda>x y s. snd (handleBoardClick s x y))) 9 (- 1) 0 (initialRecorder 9)
     = initialRecorder 9"
proof -
  have h: "\<not> (0 \<le> (- 1 :: int) \<and> (- 1 :: int) < 9 \<and> 0 \<le> (0 :: int) \<and> (0 :: int) < 9)"
    by simp
  from out_of_bounds_click_dropped [OF h] h show ?thesis by simp
qed

section \<open>The drill check\<close>

lemma fold_checkTarget:
  "fold (checkTarget stones) target f =
     f\<lparr>missing := missing f @ map fst (filter (\<lambda>e. map_of stones (fst e) \<noteq> Some (snd e)) target),
       correct := correct f @ map fst (filter (\<lambda>e. map_of stones (fst e) = Some (snd e)) target)\<rparr>"
  by (induction target arbitrary: f) (auto simp: checkTarget_def)

lemma fold_checkStone:
  "fold (checkStone target stones) ks f =
     f\<lparr>extra := extra f @
          filter (\<lambda>k. map_of target k = None \<or> map_of stones k \<noteq> map_of target k) ks\<rparr>"
  by (induction ks arbitrary: f) (auto simp: checkStone_def)

lemma checkDrill_lists:
  "checkDrill (Some target) stones =
     Some \<lparr>missing = map fst (filter (\<lambda>e. map_of stones (fst e) \<noteq> Some (snd e)) target),
           extra = filter (\<lambda>k. map_of target k = None \<or> map_of stones k \<noteq> map_of target k)
                     (map fst stones),
           correct = map fst (filter (\<lambda>e. map_of stones (fst e) = Some (snd e)) target)\<rparr>"
  by (simp add: checkDrill_def fold_checkTarget fold_checkStone)

lemma distinct_entry_iff:
  "distinct (map fst al) \<Longrightarrow> (k, v) \<in> set al \<longleftrightarrow> map_of al k = Some v"
  by (auto dest: map_of_SomeD)

lemma key_iff: "k \<in> fst ` set al \<longleftrightarrow> map_of al k \<noteq> None"
  by (simp add: map_of_eq_None_iff)

lemma checkDrill_sets:
  assumes "distinct (map fst target)"
  shows "\<exists>f. checkDrill (Some target) stones = Some f \<and>
           set (correct f) = {k. \<exists>c. map_of target k = Some c \<and> map_of stones k = Some c} \<and>
           set (missing f) = {k. \<exists>c. map_of target k = Some c \<and> map_of stones k \<noteq> Some c} \<and>
           set (extra f) = {k. \<exists>c. map_of stones k = Some c \<and> map_of target k \<noteq> Some c}"
proof -
  have c: "set (map fst (filter (\<lambda>e. map_of stones (fst e) = Some (snd e)) target))
             = {k. \<exists>c. map_of target k = Some c \<and> map_of stones k = Some c}"
    using distinct_entry_iff [OF assms] by force
  have m: "set (map fst (filter (\<lambda>e. map_of stones (fst e) \<noteq> Some (snd e)) target))
             = {k. \<exists>c. map_of target k = Some c \<and> map_of stones k \<noteq> Some c}"
    using distinct_entry_iff [OF assms] by force
  have e: "set (filter (\<lambda>k. map_of target k = None \<or> map_of stones k \<noteq> map_of target k)
                  (map fst stones))
             = {k. \<exists>c. map_of stones k = Some c \<and> map_of target k \<noteq> Some c}"
    using key_iff [of _ stones] by auto
  show ?thesis
    unfolding checkDrill_lists using c m e by simp
qed

text \<open>
  Claim C8. For a target and an actual board (objects, so with distinct keys), the drill
  check puts a coordinate in \<open>correct\<close> exactly when the target holds a stone there and the
  actual board holds the same colour, in \<open>missing\<close> exactly when the target holds a stone
  there and the actual board does not hold that colour (empty or other colour), and in
  \<open>extra\<close> exactly when the actual board holds a stone there and the target does not hold
  that colour (absent or other colour). A wrong-colour cell is therefore in both \<open>missing\<close>
  and \<open>extra\<close>, as in the two examples of the specification.
\<close>

theorem checkDrill_classifies:
  assumes "distinct (map fst target)"
  shows "(\<exists>f. checkDrill (Some target) actual = Some f \<and>
           set (correct f) = {k. \<exists>c. map_of target k = Some c \<and> map_of actual k = Some c} \<and>
           set (missing f) = {k. \<exists>c. map_of target k = Some c \<and> map_of actual k \<noteq> Some c} \<and>
           set (extra f) = {k. \<exists>c. map_of actual k = Some c \<and> map_of target k \<noteq> Some c} \<and>
           set (missing f) \<inter> set (extra f) =
             {k. \<exists>c c'. map_of target k = Some c \<and> map_of actual k = Some c' \<and> c \<noteq> c'}) \<and>
         checkDrill (Some [((0, 0), Black)]) [((0, 0), White)]
           = Some \<lparr>missing = [(0, 0)], extra = [(0, 0)], correct = []\<rparr> \<and>
         checkDrill (Some [((0, 0), Black)]) [((0, 0), Black), ((1, 1), White)]
           = Some \<lparr>missing = [], extra = [(1, 1)], correct = [(0, 0)]\<rparr>"
proof -
  from checkDrill_sets [OF assms, of actual] obtain f where
    f: "checkDrill (Some target) actual = Some f"
       "set (correct f) = {k. \<exists>c. map_of target k = Some c \<and> map_of actual k = Some c}"
       "set (missing f) = {k. \<exists>c. map_of target k = Some c \<and> map_of actual k \<noteq> Some c}"
       "set (extra f) = {k. \<exists>c. map_of actual k = Some c \<and> map_of target k \<noteq> Some c}"
    by blast
  have both: "set (missing f) \<inter> set (extra f) =
      {k. \<exists>c c'. map_of target k = Some c \<and> map_of actual k = Some c' \<and> c \<noteq> c'}"
    unfolding f by auto
  have ex1: "checkDrill (Some [((0, 0), Black)]) [((0, 0), White)]
           = Some \<lparr>missing = [(0, 0)], extra = [(0, 0)], correct = []\<rparr>"
    by (simp add: checkDrill_lists)
  have ex2: "checkDrill (Some [((0, 0), Black)]) [((0, 0), Black), ((1, 1), White)]
           = Some \<lparr>missing = [], extra = [(1, 1)], correct = [(0, 0)]\<rparr>"
    by (simp add: checkDrill_lists)
  from f both ex1 ex2 show ?thesis by blast
qed

theorem checkDrill_classifies_witness:
  "distinct (map fst [((0 :: int, 0 :: int), Black), ((2, 2), White), ((3, 3), Black)]) \<and>
   (\<exists>f. checkDrill (Some [((0, 0), Black), ((2, 2), White), ((3, 3), Black)])
           [((0, 0), White), ((2, 2), White), ((1, 1), White)] = Some f \<and>
        set (correct f) = {(2, 2)} \<and> set (missing f) = {(0, 0), (3, 3)} \<and>
        set (extra f) = {(0, 0), (1, 1)})"
proof -
  have h: "distinct (map fst [((0 :: int, 0 :: int), Black), ((2, 2), White), ((3, 3), Black)])"
    by simp
  have v: "checkDrill (Some [((0, 0), Black), ((2, 2), White), ((3, 3), Black)])
             [((0, 0), White), ((2, 2), White), ((1, 1), White)]
           = Some \<lparr>missing = [(0, 0), (3, 3)], extra = [(0, 0), (1, 1)], correct = [(2, 2)]\<rparr>"
    by (simp add: checkDrill_lists)
  from checkDrill_classifies [OF h,
      of "[((0, 0), White), ((2, 2), White), ((1, 1), White)]"] h v
  show ?thesis by simp
qed

text \<open>
  Claim C9, as stated, fails: with Black expected at (0,0) and White placed there, the
  coordinate (0,0) is in both \<open>missing\<close> and \<open>extra\<close>.
\<close>

theorem missing_extra_overlap:
  "checkDrill (Some [((0, 0), Black)]) [((0, 0), White)]
     = Some \<lparr>missing = [(0, 0)], extra = [(0, 0)], correct = []\<rparr> \<and>
   set (missing \<lparr>missing = [(0 :: int, 0 :: int)], extra = [(0, 0)], correct = []\<rparr>) \<inter>
   set (extra \<lparr>missing = [(0 :: int, 0 :: int)], extra = [(0, 0)], correct = []\<rparr>) \<noteq> {}"
  by (simp add: checkDrill_lists)

text \<open>
  Claim C9, amended. \<open>correct\<close> is disjoint from \<open>missing\<close> and from \<open>extra\<close>; \<open>missing\<close>
  and \<open>extra\<close> share exactly the coordinates that hold a stone in both boards with
  different colours.
\<close>

theorem checkDrill_disjointness:
  assumes "distinct (map fst target)"
  shows "\<exists>f. checkDrill (Some target) actual = Some f \<and>
           set (correct f) \<inter> set (missing f) = {} \<and>
           set (correct f) \<inter> set (extra f) = {} \<and>
           set (missing f) \<inter> set (extra f) =
             {k. \<exists>c c'. map_of target k = Some c \<and> map_of actual k = Some c' \<and> c \<noteq> c'}"
proof -
  from checkDrill_sets [OF assms, of actual] obtain f where
    f: "checkDrill (Some target) actual = Some f"
       "set (correct f) = {k. \<exists>c. map_of target k = Some c \<and> map_of actual k = Some c}"
       "set (missing f) = {k. \<exists>c. map_of target k = Some c \<and> map_of actual k \<noteq> Some c}"
       "set (extra f) = {k. \<exists>c. map_of actual k = Some c \<and> map_of target k \<noteq> Some c}"
    by blast
  have "set (correct f) \<inter> set (missing f) = {}" unfolding f by auto
  moreover have "set (correct f) \<inter> set (extra f) = {}" unfolding f by auto
  moreover have "set (missing f) \<inter> set (extra f) =
      {k. \<exists>c c'. map_of target k = Some c \<and> map_of actual k = Some c' \<and> c \<noteq> c'}"
    unfolding f by auto
  ultimately show ?thesis using f(1) by blast
qed

theorem checkDrill_disjointness_witness:
  "distinct (map fst [((0 :: int, 0 :: int), Black), ((2, 2), White)]) \<and>
   (\<exists>f. checkDrill (Some [((0, 0), Black), ((2, 2), White)])
           [((0, 0), White), ((2, 2), White), ((1, 1), White)] = Some f \<and>
        set (correct f) \<inter> set (missing f) = {} \<and>
        set (correct f) \<inter> set (extra f) = {} \<and>
        set (missing f) \<inter> set (extra f) = {(0, 0)})"
proof -
  have h: "distinct (map fst [((0 :: int, 0 :: int), Black), ((2, 2), White)])"
    by simp
  have v: "checkDrill (Some [((0, 0), Black), ((2, 2), White)])
             [((0, 0), White), ((2, 2), White), ((1, 1), White)]
           = Some \<lparr>missing = [(0, 0)], extra = [(0, 0), (1, 1)], correct = [(2, 2)]\<rparr>"
    by (simp add: checkDrill_lists)
  from checkDrill_disjointness [OF h,
      of "[((0, 0), White), ((2, 2), White), ((1, 1), White)]"] h v
  show ?thesis by simp
qed

section \<open>Replay against the live recorder\<close>

lemma fold_delete_count:
  "fold (\<lambda>k (nb, cnt). (AList.delete k nb, Suc cnt)) grp (b, n)
     = (fold AList.delete grp b, n + length grp)"
  by (induction grp arbitrary: b n) auto

lemma addCaptures_add:
  "addCaptures col (k + m) c = addCaptures col m (addCaptures col k c)"
  by (cases col) (simp_all add: addCaptures_def)

lemma addCaptures_zero: "addCaptures col 0 c = c"
  by (cases col) (simp_all add: addCaptures_def)

lemma replayCapture_liveCapture:
  assumes "liveCapture sz (opponentOf col) n (b, k) = (b', k')"
  shows "replayCapture sz col n (b, addCaptures col k c0) = (b', addCaptures col k' c0)"
  using assms
  by (auto simp: liveCapture_def replayCapture_def fold_delete_count addCaptures_add
           split: if_splits option.splits)

lemma fold_replayCapture_liveCapture:
  assumes "fold (liveCapture sz (opponentOf col)) ns (b, k) = (b', k')"
  shows "fold (replayCapture sz col) ns (b, addCaptures col k c0) = (b', addCaptures col k' c0)"
  using assms
proof (induction ns arbitrary: b k)
  case Nil
  then show ?case by simp
next
  case (Cons n ns)
  obtain b1 k1 where st: "liveCapture sz (opponentOf col) n (b, k) = (b1, k1)"
    by (cases "liveCapture sz (opponentOf col) n (b, k)") auto
  with Cons.prems have "fold (liveCapture sz (opponentOf col)) ns (b1, k1) = (b', k')"
    by simp
  from Cons.IH [OF this] replayCapture_liveCapture [OF st, of c0] show ?case
    by simp
qed

lemma accepted_fields:
  assumes "handleBoardClick s x y = (Accepted, s')"
  shows "board s' = fst (placeAndCapture s x y)"
    and "moves s' = moves s @ [\<lparr>mv_x = x, mv_y = y, mv_color = turn s,
                                mv_captures = Some (snd (placeAndCapture s x y))\<rparr>]"
    and "captures s' = addCaptures (turn s) (snd (placeAndCapture s x y)) (captures s)"
    and "turn s' = opponentOf (turn s)"
    and "boardSize s' = boardSize s"
    and "map_of (board s) (x, y) = None"
  using assms
  by (auto simp: handleBoardClick_def addCaptures_zero split: if_splits prod.splits)

lemma replayMove_accepted:
  assumes "handleBoardClick s x y = (Accepted, s')"
  shows "replayMove (boardSize s) (last (moves s')) (board s, captures s)
           = (board s', captures s')"
proof -
  obtain nb k where pc: "placeAndCapture s x y = (nb, k)"
    by (cases "placeAndCapture s x y") auto
  hence "fold (liveCapture (boardSize s) (opponentOf (turn s))) (getNeighbors x y (boardSize s))
           (AList.update (x, y) (turn s) (board s), 0) = (nb, k)"
    by (simp add: placeAndCapture_def)
  from fold_replayCapture_liveCapture [OF this, of "captures s"]
  have "fold (replayCapture (boardSize s) (turn s)) (getNeighbors x y (boardSize s))
           (AList.update (x, y) (turn s) (board s), captures s)
          = (nb, addCaptures (turn s) k (captures s))"
    by (simp add: addCaptures_zero)
  with accepted_fields [OF assms] pc show ?thesis
    by (simp add: replayMove_def)
qed

text \<open>The recorder invariant: board, tally and turn are functions of the move list.\<close>

definition recorderInv :: "Recorder \<Rightarrow> bool" where
  "recorderInv s \<longleftrightarrow>
     replayGame (moves s) (boardSize s) = (board s, captures s) \<and>
     captures s = tally (moves s) \<and>
     turn s = turnAfter (moves s)"

lemma recorderInv_initial: "recorderInv (initialRecorder sz)"
  by (simp add: recorderInv_def initialRecorder_def replayGame_def tally_def turnAfter_def)

lemma tally_snoc:
  "tally (ms @ [m]) = addCaptures (mv_color m) (capturedCount m) (tally ms)"
  by (cases "mv_color m") (simp_all add: tally_def addCaptures_def)

lemma turnAfter_snoc: "turnAfter (ms @ [m]) = opponentOf (turnAfter ms)"
  by (simp add: turnAfter_def opponentOf_def) presburger

lemma recorderInv_accepted:
  assumes "recorderInv s" and "handleBoardClick s x y = (Accepted, s')"
  shows "recorderInv s'"
proof -
  note f = accepted_fields [OF assms(2)]
  have "replayGame (moves s') (boardSize s')
          = replayMove (boardSize s) (last (moves s')) (replayGame (moves s) (boardSize s))"
    by (simp add: f replayGame_def)
  also have "\<dots> = (board s', captures s')"
    using assms(1) replayMove_accepted [OF assms(2)] by (simp add: recorderInv_def)
  finally have 1: "replayGame (moves s') (boardSize s') = (board s', captures s')" .
  have 2: "captures s' = tally (moves s')"
    using assms(1) by (simp add: f tally_snoc capturedCount_def recorderInv_def)
  have 3: "turn s' = turnAfter (moves s')"
    using assms(1) by (simp add: f turnAfter_snoc recorderInv_def)
  from 1 2 3 show ?thesis by (simp add: recorderInv_def)
qed

lemma playAll_inv:
  assumes "playAll s0 cs = Some s" and "recorderInv s0"
  shows "recorderInv s \<and> boardSize s = boardSize s0 \<and>
         map (\<lambda>m. (mv_x m, mv_y m)) (moves s) = map (\<lambda>m. (mv_x m, mv_y m)) (moves s0) @ cs"
  using assms
proof (induction cs arbitrary: s0)
  case Nil
  then show ?case by simp
next
  case (Cons p ps)
  from Cons.prems(1) obtain s1 where
    acc: "handleBoardClick s0 (fst p) (snd p) = (Accepted, s1)" and rest: "playAll s1 ps = Some s"
    by (auto split: prod.splits ClickResult.splits)
  note f = accepted_fields [OF acc]
  from Cons.IH [OF rest recorderInv_accepted [OF Cons.prems(2) acc]] show ?case
    by (simp add: f)
qed

lemma playAll_append:
  "playAll s (cs @ ds) = (case playAll s cs of None \<Rightarrow> None | Some s' \<Rightarrow> playAll s' ds)"
  by (induction cs arbitrary: s) (auto split: prod.splits ClickResult.splits)

lemma undo_accepted:
  assumes "recorderInv s" and "handleBoardClick s x y = (Accepted, s')"
  shows "undoLastMove s' = s"
proof -
  note f = accepted_fields [OF assms(2)]
  from assms(1) have r: "replayGame (moves s) (boardSize s) = (board s, captures s)"
    and t: "turn s = turnAfter (moves s)"
    by (simp_all add: recorderInv_def)
  have "undoLastMove s' =
          s'\<lparr>board := board s, captures := captures s, moves := moves s, turn := turn s\<rparr>"
    using r t by (simp add: undoLastMove_def f turnAfter_def)
  also have "\<dots> = s"
    using f(5) by (cases s, cases s') simp
  finally show ?thesis .
qed

text \<open>
  Claim C1. For every board size and every sequence of clicks that the live recorder
  accepts one after the other from the empty board, replaying the recorded move list from
  the empty board gives exactly the live board, and the replayed tally is the live tally and
  is the sum of the recorded capture counts per mover colour.
\<close>

theorem replay_reproduces_live:
  assumes "playAll (initialRecorder sz) cs = Some s"
  shows "map (\<lambda>m. (mv_x m, mv_y m)) (moves s) = cs \<and>
         fst (replayGame (moves s) sz) = board s \<and>
         snd (replayGame (moves s) sz) = captures s \<and>
         snd (replayGame (moves s) sz) = tally (moves s)"
proof -
  from playAll_inv [OF assms recorderInv_initial]
  have inv: "recorderInv s" and sz: "boardSize s = sz"
    and mv: "map (\<lambda>m. (mv_x m, mv_y m)) (moves s) = cs"
    by (simp_all add: initialRecorder_def)
  from inv sz have "replayGame (moves s) sz = (board s, captures s)"
    and "captures s = tally (moves s)"
    by (simp_all add: recorderInv_def)
  with mv show ?thesis by simp
qed

theorem replay_reproduces_live_witness:
  "playAll (initialRecorder 9) [(1, 0), (0, 0), (0, 1)] =
     Some \<lparr>moves = [\<lparr>mv_x = 1, mv_y = 0, mv_color = Black, mv_captures = Some 0\<rparr>,
                    \<lparr>mv_x = 0, mv_y = 0, mv_color = White, mv_captures = Some 0\<rparr>,
                    \<lparr>mv_x = 0, mv_y = 1, mv_color = Black, mv_captures = Some 1\<rparr>],
           board = [((1, 0), Black), ((0, 1), Black)],
           captures = \<lparr>black = 1, white = 0\<rparr>, turn = White, boardSize = 9\<rparr> \<and>
   replayGame [\<lparr>mv_x = 1, mv_y = 0, mv_color = Black, mv_captures = Some 0\<rparr>,
               \<lparr>mv_x = 0, mv_y = 0, mv_color = White, mv_captures = Some 0\<rparr>,
               \<lparr>mv_x = 0, mv_y = 1, mv_color = Black, mv_captures = Some 1\<rparr>] 9
     = ([((1, 0), Black), ((0, 1), Black)], \<lparr>black = 1, white = 0\<rparr>)"
proof -
  have h: "playAll (initialRecorder 9) [(1, 0), (0, 0), (0, 1)] =
     Some \<lparr>moves = [\<lparr>mv_x = 1, mv_y = 0, mv_color = Black, mv_captures = Some 0\<rparr>,
                    \<lparr>mv_x = 0, mv_y = 0, mv_color = White, mv_captures = Some 0\<rparr>,
                    \<lparr>mv_x = 0, mv_y = 1, mv_color = Black, mv_captures = Some 1\<rparr>],
           board = [((1, 0), Black), ((0, 1), Black)],
           captures = \<lparr>black = 1, white = 0\<rparr>, turn = White, boardSize = 9\<rparr>"
    by code_simp
  from replay_reproduces_live [OF h] h show ?thesis
    by (simp add: prod_eq_iff)
qed

section \<open>Undo\<close>

lemma playAll_moves:
  assumes "playAll s0 cs = Some s"
  shows "\<exists>ms. moves s = moves s0 @ ms \<and> length ms = length cs"
  using assms
proof (induction cs arbitrary: s0)
  case Nil
  then show ?case by simp
next
  case (Cons p ps)
  from Cons.prems obtain s1 where
    acc: "handleBoardClick s0 (fst p) (snd p) = (Accepted, s1)" and rest: "playAll s1 ps = Some s"
    by (auto split: prod.splits ClickResult.splits)
  from Cons.IH [OF rest] obtain ms where "moves s = moves s1 @ ms" "length ms = length ps"
    by blast
  with accepted_fields(2) [OF acc] show ?case by simp
qed

lemma playAll_prefix:
  assumes "playAll s0 cs = Some s" and "k \<le> length cs"
  shows "\<exists>sk. playAll s0 (take k cs) = Some sk \<and> playAll sk (drop k cs) = Some s"
proof -
  from assms(1) have "playAll s0 (take k cs @ drop k cs) = Some s" by simp
  then show ?thesis
    unfolding playAll_append by (auto split: option.splits)
qed

lemma playAll_prefix_replay:
  assumes "playAll (initialRecorder sz) cs = Some s" and "k \<le> length cs"
  shows "\<exists>sk. playAll (initialRecorder sz) (take k cs) = Some sk \<and>
              moves sk = take k (moves s) \<and>
              replayGame (take k (moves s)) sz = (board sk, captures sk)"
proof -
  from playAll_prefix [OF assms] obtain sk where
    pre: "playAll (initialRecorder sz) (take k cs) = Some sk"
    and post: "playAll sk (drop k cs) = Some s"
    by blast
  from playAll_moves [OF pre] assms(2) have len: "length (moves sk) = k"
    by (auto simp: initialRecorder_def)
  from playAll_moves [OF post] obtain ms where "moves s = moves sk @ ms"
    by blast
  with len have mv: "moves sk = take k (moves s)" by simp
  from playAll_inv [OF pre recorderInv_initial]
  have "recorderInv sk" and "boardSize sk = sz"
    by (simp_all add: initialRecorder_def)
  hence "replayGame (moves sk) sz = (board sk, captures sk)"
    unfolding recorderInv_def by blast
  with pre mv show ?thesis by simp
qed

text \<open>
  Claim C6. When the recorder has accepted a non-empty sequence of clicks from the empty
  board, replaying its move list without the last move gives the board and tally that
  existed just before that move was applied, and \<^verbatim>\<open>undoLastMove\<close> puts the recorder back
  in exactly that state; the same holds for the first \<open>k\<close> moves, for every \<open>k\<close>.
\<close>

theorem undo_restores_previous:
  assumes "playAll (initialRecorder sz) (cs @ [p]) = Some s'"
  shows "(\<exists>s. playAll (initialRecorder sz) cs = Some s \<and>
              handleBoardClick s (fst p) (snd p) = (Accepted, s') \<and>
              replayGame (butlast (moves s')) sz = (board s, captures s) \<and>
              undoLastMove s' = s) \<and>
         (\<forall>k \<le> length (cs @ [p]).
            \<exists>sk. playAll (initialRecorder sz) (take k (cs @ [p])) = Some sk \<and>
                 replayGame (take k (moves s')) sz = (board sk, captures sk))"
proof -
  from assms obtain s where
    pre: "playAll (initialRecorder sz) cs = Some s"
    and acc: "handleBoardClick s (fst p) (snd p) = (Accepted, s')"
    unfolding playAll_append
    by (auto split: option.splits prod.splits ClickResult.splits)
  from playAll_inv [OF pre recorderInv_initial]
  have inv: "recorderInv s" and bs: "boardSize s = sz"
    by (simp_all add: initialRecorder_def)
  have bl: "butlast (moves s') = moves s"
    by (simp add: accepted_fields(2) [OF acc])
  from inv bs have "replayGame (butlast (moves s')) sz = (board s, captures s)"
    by (simp add: bl recorderInv_def)
  moreover have "undoLastMove s' = s"
    by (rule undo_accepted [OF inv acc])
  moreover have "\<forall>k \<le> length (cs @ [p]).
            \<exists>sk. playAll (initialRecorder sz) (take k (cs @ [p])) = Some sk \<and>
                 replayGame (take k (moves s')) sz = (board sk, captures sk)"
    using playAll_prefix_replay [OF assms] by blast
  ultimately show ?thesis using pre acc by blast
qed

theorem undo_restores_previous_witness:
  "playAll (initialRecorder 9) ([(1, 0), (0, 0)] @ [(0, 1)]) =
     Some \<lparr>moves = [\<lparr>mv_x = 1, mv_y = 0, mv_color = Black, mv_captures = Some 0\<rparr>,
                    \<lparr>mv_x = 0, mv_y = 0, mv_color = White, mv_captures = Some 0\<rparr>,
                    \<lparr>mv_x = 0, mv_y = 1, mv_color = Black, mv_captures = Some 1\<rparr>],
           board = [((1, 0), Black), ((0, 1), Black)],
           captures = \<lparr>black = 1, white = 0\<rparr>, turn = White, boardSize = 9\<rparr> \<and>
   undoLastMove
       \<lparr>moves = [\<lparr>mv_x = 1, mv_y = 0, mv_color = Black, mv_captures = Some 0\<rparr>,
                 \<lparr>mv_x = 0, mv_y = 0, mv_color = White, mv_captures = Some 0\<rparr>,
                 \<lparr>mv_x = 0, mv_y = 1, mv_color = Black, mv_captures = Some 1\<rparr>],
        board = [((1, 0), Black), ((0, 1), Black)],
        captures = \<lparr>black = 1, white = 0\<rparr>, turn = White, boardSize = 9\<rparr>
     = \<lparr>moves = [\<lparr>mv_x = 1, mv_y = 0, mv_color = Black, mv_captures = Some 0\<rparr>,
                 \<lparr>mv_x = 0, mv_y = 0, mv_color = White, mv_captures = Some 0\<rparr>],
        board = [((1, 0), Black), ((0, 0), White)],
        captures = \<lparr>black = 0, white = 0\<rparr>, turn = Black, boardSize = 9\<rparr>"
proof -
  have h: "playAll (initialRecorder 9) ([(1, 0), (0, 0)] @ [(0, 1)]) =
     Some \<lparr>moves = [\<lparr>mv_x = 1, mv_y = 0, mv_color = Black, mv_captures = Some 0\<rparr>,
                    \<lparr>mv_x = 0, mv_y = 0, mv_color = White, mv_captures = Some 0\<rparr>,
                    \<lparr>mv_x = 0, mv_y = 1, mv_color = Black, mv_captures = Some 1\<rparr>],
           board = [((1, 0), Black), ((0, 1), Black)],
           captures = \<lparr>black = 1, white = 0\<rparr>, turn = White, boardSize = 9\<rparr>"
    by code_simp
  have p: "playAll (initialRecorder 9) [(1, 0), (0, 0)] =
     Some \<lparr>moves = [\<lparr>mv_x = 1, mv_y = 0, mv_color = Black, mv_captures = Some 0\<rparr>,
                    \<lparr>mv_x = 0, mv_y = 0, mv_color = White, mv_captures = Some 0\<rparr>],
           board = [((1, 0), Black), ((0, 0), White)],
           captures = \<lparr>black = 0, white = 0\<rparr>, turn = Black, boardSize = 9\<rparr>"
    by code_simp
  from undo_restores_previous [OF h] p h show ?thesis
    by auto
qed

section \<open>The flood fill computes the connected group\<close>

lemma fold_visitNeighbor:
  "\<exists>new. fold (visitNeighbor b c) ns (v, g, q) = (v \<union> set new, g @ new, q @ new) \<and>
         set new = {n \<in> set ns. map_of b n = Some c} - v \<and> distinct new"
proof (induction ns arbitrary: v g q)
  case Nil
  show ?case by simp
next
  case (Cons n ns)
  show ?case
  proof (cases "map_of b n = Some c \<and> n \<notin> v")
    case True
    from Cons.IH [of "insert n v" "g @ [n]" "q @ [n]"] obtain new where
      new: "fold (visitNeighbor b c) ns (insert n v, g @ [n], q @ [n])
              = (insert n v \<union> set new, (g @ [n]) @ new, (q @ [n]) @ new)"
           "set new = {n \<in> set ns. map_of b n = Some c} - insert n v" "distinct new"
      by blast
    have "fold (visitNeighbor b c) (n # ns) (v, g, q)
            = (v \<union> set (n # new), g @ (n # new), q @ (n # new))"
      using True new(1) by (simp add: visitNeighbor_def)
    moreover have "set (n # new) = {m \<in> set (n # ns). map_of b m = Some c} - v"
      using True new(2) by auto
    moreover have "distinct (n # new)"
      using new(2,3) by auto
    ultimately show ?thesis by blast
  next
    case False
    from Cons.IH [of v g q] obtain new where
      new: "fold (visitNeighbor b c) ns (v, g, q) = (v \<union> set new, g @ new, q @ new)"
           "set new = {n \<in> set ns. map_of b n = Some c} - v" "distinct new"
      by blast
    have "fold (visitNeighbor b c) (n # ns) (v, g, q) = (v \<union> set new, g @ new, q @ new)"
      using False new(1) by (auto simp: visitNeighbor_def)
    moreover have "set new = {m \<in> set (n # ns). map_of b m = Some c} - v"
      using False new(2) by auto
    ultimately show ?thesis using new(3) by blast
  qed
qed

lemma bfs_set:
  assumes "set g = v" and "set q \<subseteq> v" and "distinct g"
    and "\<forall>a \<in> v - set q. stoneStep b c sz `` {a} \<subseteq> v"
  shows "set (bfs b c sz v g q) = (stoneStep b c sz)\<^sup>* `` v \<and> distinct (bfs b c sz v g q)"
  using assms
proof (induction b c sz v g q rule: bfs.induct)
  case (1 b c sz visited grp)
  have "(stoneStep b c sz)\<^sup>* `` visited \<subseteq> visited"
  proof
    fix z assume "z \<in> (stoneStep b c sz)\<^sup>* `` visited"
    then obtain a where "a \<in> visited" "(a, z) \<in> (stoneStep b c sz)\<^sup>*" by blast
    from this(2,1) show "z \<in> visited"
      using "1.prems"(4) by (induction rule: rtrancl_induct) auto
  qed
  with "1.prems" show ?case by auto
next
  case (2 b c sz visited grp cur queue)
  let ?R = "stoneStep b c sz"
  from fold_visitNeighbor [of b c "getNeighbors (fst cur) (snd cur) sz" visited grp queue]
  obtain new where
    f: "fold (visitNeighbor b c) (getNeighbors (fst cur) (snd cur) sz) (visited, grp, queue)
          = (visited \<union> set new, grp @ new, queue @ new)"
    and sn: "set new = {n \<in> set (getNeighbors (fst cur) (snd cur) sz). map_of b n = Some c} - visited"
    and dn: "distinct new"
    by blast
  have step: "?R `` {cur} \<subseteq> visited \<union> set new"
    using sn by (auto simp: stoneStep_def)
  have sub: "set new \<subseteq> ?R `` {cur}"
    using sn by (auto simp: stoneStep_def)
  have cur: "cur \<in> visited" using "2.prems"(2) by simp
  have p1: "set (grp @ new) = visited \<union> set new" using "2.prems"(1) by simp
  have p2: "set (queue @ new) \<subseteq> visited \<union> set new" using "2.prems"(2) by auto
  have p3: "distinct (grp @ new)" using "2.prems"(1,3) dn sn by auto
  have p4: "\<forall>a \<in> (visited \<union> set new) - set (queue @ new). ?R `` {a} \<subseteq> visited \<union> set new"
  proof
    fix a assume a: "a \<in> (visited \<union> set new) - set (queue @ new)"
    show "?R `` {a} \<subseteq> visited \<union> set new"
    proof (cases "a = cur")
      case True
      with step show ?thesis by simp
    next
      case False
      with a have "a \<in> visited - set (cur # queue)" by auto
      with "2.prems"(4) show ?thesis by blast
    qed
  qed
  from "2.IH" [OF f [symmetric] refl p1 p2 p3 p4]
  have ih: "set (bfs b c sz (visited \<union> set new) (grp @ new) (queue @ new))
              = ?R\<^sup>* `` (visited \<union> set new)"
           "distinct (bfs b c sz (visited \<union> set new) (grp @ new) (queue @ new))"
    by simp_all
  have "?R\<^sup>* `` (visited \<union> set new) = ?R\<^sup>* `` visited"
  proof
    show "?R\<^sup>* `` (visited \<union> set new) \<subseteq> ?R\<^sup>* `` visited"
    proof
      fix z assume "z \<in> ?R\<^sup>* `` (visited \<union> set new)"
      then obtain a where a: "a \<in> visited \<union> set new" "(a, z) \<in> ?R\<^sup>*" by blast
      show "z \<in> ?R\<^sup>* `` visited"
      proof (cases "a \<in> visited")
        case True
        with a(2) show ?thesis by blast
      next
        case False
        with a(1) sub have "(cur, a) \<in> ?R" by blast
        from this a(2) have "(cur, z) \<in> ?R\<^sup>*" by (rule converse_rtrancl_into_rtrancl)
        with cur show ?thesis by blast
      qed
    qed
  next
    show "?R\<^sup>* `` visited \<subseteq> ?R\<^sup>* `` (visited \<union> set new)" by blast
  qed
  with ih f show ?case by simp
qed

lemma getGroup_set:
  assumes "map_of b p = Some c"
  shows "\<exists>g. getGroup b (fst p) (snd p) sz = Some g \<and>
             set g = (stoneStep b c sz)\<^sup>* `` {p} \<and> distinct g"
proof -
  have "set (bfs b c sz {p} [p] [p]) = (stoneStep b c sz)\<^sup>* `` {p} \<and>
        distinct (bfs b c sz {p} [p] [p])"
    by (rule bfs_set) simp_all
  with assms show ?thesis by (simp add: getGroup_def)
qed

lemma getGroup_None: "map_of b (x, y) = None \<Longrightarrow> getGroup b x y sz = None"
  by (simp add: getGroup_def)

lemma stoneStep_colour:
  assumes "(p, q) \<in> (stoneStep b c sz)\<^sup>*" and "map_of b p = Some c"
  shows "map_of b q = Some c"
  using assms by (induction rule: rtrancl_induct) (auto simp: stoneStep_def)

lemma map_of_fold_delete:
  "map_of (fold AList.delete g b) k = (if k \<in> set g then None else map_of b k)"
  by (induction g arbitrary: b) (auto simp: delete_conv')

lemma fold_liberties_inner:
  "fold (\<lambda>n liberties. if map_of b n = None then insert n liberties else liberties) ns L
     = L \<union> {n \<in> set ns. map_of b n = None}"
  by (induction ns arbitrary: L) auto

lemma fold_liberties_outer:
  "fold (\<lambda>key. fold (\<lambda>n liberties. if map_of b n = None then insert n liberties else liberties)
                    (getNeighbors (fst key) (snd key) sz)) g L
     = L \<union> {n. \<exists>k \<in> set g. n \<in> set (getNeighbors (fst k) (snd k) sz) \<and> map_of b n = None}"
  by (induction g arbitrary: L) (auto simp: fold_liberties_inner)

lemma countLiberties_card:
  "countLiberties b g sz =
     card {n. \<exists>k \<in> set g. n \<in> set (getNeighbors (fst k) (snd k) sz) \<and> map_of b n = None}"
  by (simp add: countLiberties_def fold_liberties_outer)

section \<open>Liberties\<close>

lemma getNeighbors_onBoard:
  assumes "onBoard sz (x, y)"
  shows "set (getNeighbors x y sz) = {n. onBoard sz n \<and> adjacent (x, y) n}"
  using assms by (auto simp: getNeighbors_def onBoard_def adjacent_def)

lemma length_getNeighbors:
  "length (getNeighbors x y sz) \<le> 4"
  "x = 0 \<or> x = sz - 1 \<or> y = 0 \<or> y = sz - 1 \<Longrightarrow> length (getNeighbors x y sz) \<le> 3"
  "(x = 0 \<or> x = sz - 1) \<and> (y = 0 \<or> y = sz - 1) \<Longrightarrow> length (getNeighbors x y sz) \<le> 2"
  by (auto simp: getNeighbors_def)

lemma countLiberties_single:
  "countLiberties b [p] sz \<le> length (getNeighbors (fst p) (snd p) sz)"
proof -
  have "{n. \<exists>k \<in> set [p]. n \<in> set (getNeighbors (fst k) (snd k) sz) \<and> map_of b n = None}
          \<subseteq> set (getNeighbors (fst p) (snd p) sz)"
    by auto
  hence "countLiberties b [p] sz \<le> card (set (getNeighbors (fst p) (snd p) sz))"
    unfolding countLiberties_card by (intro card_mono) simp_all
  also have "\<dots> \<le> length (getNeighbors (fst p) (snd p) sz)" by (rule card_length)
  finally show ?thesis .
qed

text \<open>
  Claim C7. For a group whose members are on the board, the liberty count is the number of
  distinct cells that are on the board, empty, and 4-directionally adjacent to at least one
  member: the candidates of each member are exactly its on-board adjacent cells, and a cell
  reached from several members is one element of the set. A single stone therefore has at
  most 4 liberties, at most 3 on an edge and at most 2 in a corner.
\<close>

theorem liberties_counted_once:
  assumes "\<forall>k \<in> set grp. onBoard sz k"
  shows "countLiberties b grp sz =
           card {n. onBoard sz n \<and> map_of b n = None \<and> (\<exists>k \<in> set grp. adjacent k n)} \<and>
         (\<forall>k \<in> set grp. set (getNeighbors (fst k) (snd k) sz) = {n. onBoard sz n \<and> adjacent k n}) \<and>
         countLiberties b [p] sz \<le> 4 \<and>
         (fst p = 0 \<or> fst p = sz - 1 \<or> snd p = 0 \<or> snd p = sz - 1
            \<longrightarrow> countLiberties b [p] sz \<le> 3) \<and>
         ((fst p = 0 \<or> fst p = sz - 1) \<and> (snd p = 0 \<or> snd p = sz - 1)
            \<longrightarrow> countLiberties b [p] sz \<le> 2)"
proof -
  have nb: "\<forall>k \<in> set grp. set (getNeighbors (fst k) (snd k) sz) = {n. onBoard sz n \<and> adjacent k n}"
    using assms getNeighbors_onBoard [of sz] by (auto simp del: split_paired_All)
  hence "{n. \<exists>k \<in> set grp. n \<in> set (getNeighbors (fst k) (snd k) sz) \<and> map_of b n = None}
        = {n. onBoard sz n \<and> map_of b n = None \<and> (\<exists>k \<in> set grp. adjacent k n)}"
    by auto
  hence 1: "countLiberties b grp sz =
           card {n. onBoard sz n \<and> map_of b n = None \<and> (\<exists>k \<in> set grp. adjacent k n)}"
    by (simp add: countLiberties_card)
  note le = countLiberties_single [of b p sz]
  have 2: "countLiberties b [p] sz \<le> 4"
    using le length_getNeighbors(1) [of "fst p" "snd p" sz] by linarith
  have 3: "fst p = 0 \<or> fst p = sz - 1 \<or> snd p = 0 \<or> snd p = sz - 1
            \<longrightarrow> countLiberties b [p] sz \<le> 3"
    using le length_getNeighbors(2) [of "fst p" sz "snd p"] by linarith
  have 4: "(fst p = 0 \<or> fst p = sz - 1) \<and> (snd p = 0 \<or> snd p = sz - 1)
            \<longrightarrow> countLiberties b [p] sz \<le> 2"
    using le length_getNeighbors(3) [of "fst p" sz "snd p"] by linarith
  from 1 nb 2 3 4 show ?thesis by blast
qed

theorem liberties_counted_once_witness:
  "onBoard 9 (0, 0) \<and> onBoard 9 (1, 0) \<and> onBoard 9 (1, 1) \<and>
   countLiberties cornerL [(0, 0), (1, 0), (1, 1)] 9 = 4 \<and>
   card {n. onBoard 9 n \<and> map_of cornerL n = None \<and>
            (adjacent (0, 0) n \<or> adjacent (1, 0) n \<or> adjacent (1, 1) n)} = 4 \<and>
   set (getNeighbors 0 0 9) = {n. onBoard 9 n \<and> adjacent (0, 0) n} \<and>
   countLiberties cornerL [(0, 0)] 9 \<le> 2"
proof -
  have h: "\<forall>k \<in> set [(0, 0), (1, 0), (1, 1)]. onBoard 9 k"
    by (simp add: onBoard_def)
  have v: "countLiberties cornerL [(0, 0), (1, 0), (1, 1)] 9 = 4"
    by code_simp
  from liberties_counted_once [OF h, of cornerL "(0, 0)"] v show ?thesis
    using h by simp
qed

section \<open>Replay performs no legality check\<close>

lemma opponentOf_neq: "opponentOf col \<noteq> col"
  by (cases col) (simp_all add: opponentOf_def)

lemma replayCapture_keeps:
  assumes "map_of b p = Some col"
  shows "map_of (fst (replayCapture sz col n (b, c))) p = Some col"
proof (cases "map_of b n = Some (opponentOf col)")
  case False
  with assms show ?thesis by (simp add: replayCapture_def)
next
  case True
  from getGroup_set [OF True, of sz] obtain g where
    g: "getGroup b (fst n) (snd n) sz = Some g"
       "set g = (stoneStep b (opponentOf col) sz)\<^sup>* `` {n}"
    by blast
  have "p \<notin> set g"
  proof
    assume "p \<in> set g"
    with g(2) have "(n, p) \<in> (stoneStep b (opponentOf col) sz)\<^sup>*" by simp
    from stoneStep_colour [OF this True] assms show False
      using opponentOf_neq [of col] by simp
  qed
  with assms True g(1) show ?thesis
    by (simp add: replayCapture_def map_of_fold_delete)
qed

lemma fold_replayCapture_keeps:
  assumes "map_of b p = Some col"
  shows "map_of (fst (fold (replayCapture sz col) ns (b, c))) p = Some col"
  using assms
proof (induction ns arbitrary: b c)
  case Nil
  then show ?case by simp
next
  case (Cons n ns)
  obtain b1 c1 where st: "replayCapture sz col n (b, c) = (b1, c1)"
    by (cases "replayCapture sz col n (b, c)") auto
  with replayCapture_keeps [OF Cons.prems, of sz n c] have "map_of b1 p = Some col" by simp
  from Cons.IH [OF this, of c1] st show ?case by simp
qed

lemma replayMove_places:
  "map_of (fst (replayMove sz m st)) (mv_x m, mv_y m) = Some (mv_color m)"
proof (cases st)
  case (Pair b c)
  have "map_of (AList.update (mv_x m, mv_y m) (mv_color m) b) (mv_x m, mv_y m) = Some (mv_color m)"
    by (simp add: update_conv')
  from fold_replayCapture_keeps [OF this] Pair show ?thesis
    by (simp add: replayMove_def)
qed

text \<open>
  Claim C10. \<^verbatim>\<open>replayGame\<close> is a fold of \<open>replayMove\<close> over the move list, defined on every
  list (the flood fill terminates on every board). A step writes the move's stone whatever
  the cell held and never rejects: after the step the move's colour is at the move's
  coordinate. A move on an occupied cell replaces the stone there, and a move that the live
  recorder rejects as suicide is replayed like any other.
\<close>

theorem replay_unconditional:
  "replayGame (ms @ [m]) sz = replayMove sz m (replayGame ms sz) \<and>
   map_of (fst (replayGame (ms @ [m]) sz)) (mv_x m, mv_y m) = Some (mv_color m) \<and>
   replayGame [\<lparr>mv_x = 0, mv_y = 0, mv_color = Black, mv_captures = Some 0\<rparr>,
               \<lparr>mv_x = 0, mv_y = 0, mv_color = White, mv_captures = Some 0\<rparr>] 9
     = ([((0, 0), White)], \<lparr>black = 0, white = 0\<rparr>) \<and>
   replayGame (moves cornerEye) 9 = (board cornerEye, captures cornerEye) \<and>
   handleBoardClick cornerEye 0 0 = (SuicideMove, cornerEye) \<and>
   replayGame (moves cornerEye @
                 [\<lparr>mv_x = 0, mv_y = 0, mv_color = White, mv_captures = Some 0\<rparr>]) 9
     = (board cornerEye @ [((0, 0), White)], captures cornerEye)"
proof -
  have 1: "replayGame (ms @ [m]) sz = replayMove sz m (replayGame ms sz)"
    by (simp add: replayGame_def)
  have 2: "map_of (fst (replayGame (ms @ [m]) sz)) (mv_x m, mv_y m) = Some (mv_color m)"
    unfolding 1 by (rule replayMove_places)
  have 3: "replayGame [\<lparr>mv_x = 0, mv_y = 0, mv_color = Black, mv_captures = Some 0\<rparr>,
               \<lparr>mv_x = 0, mv_y = 0, mv_color = White, mv_captures = Some 0\<rparr>] 9
     = ([((0, 0), White)], \<lparr>black = 0, white = 0\<rparr>)"
    by code_simp
  have 4: "replayGame (moves cornerEye) 9 = (board cornerEye, captures cornerEye)"
    by code_simp
  have 5: "handleBoardClick cornerEye 0 0 = (SuicideMove, cornerEye)"
    by code_simp
  have 6: "replayGame (moves cornerEye @
                 [\<lparr>mv_x = 0, mv_y = 0, mv_color = White, mv_captures = Some 0\<rparr>]) 9
     = (board cornerEye @ [((0, 0), White)], captures cornerEye)"
    by code_simp
  from 1 2 3 4 5 6 show ?thesis by blast
qed

section \<open>Capture resolution\<close>

lemma removedFromD:
  "removedFrom nb D b \<Longrightarrow> map_of b k = (if k \<in> D then None else map_of nb k)"
  unfolding removedFrom_def by blast

lemma removedFromI:
  "(\<And>k. map_of b k = (if k \<in> D then None else map_of nb k)) \<Longrightarrow> removedFrom nb D b"
  unfolding removedFrom_def by blast

lemma adjacent_sym: "adjacent p q \<longleftrightarrow> adjacent q p"
  by (auto simp: adjacent_def)

lemma neighbor_sym:
  assumes "onBoard sz a" and "n \<in> set (getNeighbors (fst a) (snd a) sz)"
  shows "onBoard sz n \<and> a \<in> set (getNeighbors (fst n) (snd n) sz)"
proof -
  from assms getNeighbors_onBoard [of sz "fst a" "snd a"]
  have n: "onBoard sz n" "adjacent a n" by auto
  from n(1) getNeighbors_onBoard [of sz "fst n" "snd n"]
  have "set (getNeighbors (fst n) (snd n) sz) = {m. onBoard sz m \<and> adjacent n m}" by simp
  with assms(1) n adjacent_sym [of a n] show ?thesis by simp
qed

lemma reach_onBoard:
  assumes "(p, q) \<in> (stoneStep b c sz)\<^sup>*" and "onBoard sz p"
  shows "onBoard sz q"
  using assms
  by (induction rule: rtrancl_induct) (auto simp: stoneStep_def dest: neighbor_sym)

lemma closedGroups_empty: "closedGroups b sz c {}"
  by (simp add: closedGroups_def)

lemma closedGroups_Un:
  "closedGroups b sz c D \<Longrightarrow> closedGroups b sz c E \<Longrightarrow> closedGroups b sz c (D \<union> E)"
  unfolding closedGroups_def by blast

lemma closedGroups_group:
  assumes "map_of b n = Some c" and "onBoard sz n"
    and "getGroup b (fst n) (snd n) sz = Some g"
  shows "closedGroups b sz c (set g)"
proof -
  from getGroup_set [OF assms(1), of sz] assms(3)
  have g: "set g = (stoneStep b c sz)\<^sup>* `` {n}" by simp
  have "\<forall>k \<in> set g. map_of b k = Some c \<and> onBoard sz k"
    using g stoneStep_colour [OF _ assms(1)] reach_onBoard [OF _ assms(2)] by blast
  moreover have "\<forall>k \<in> set g. stoneStep b c sz `` {k} \<subseteq> set g"
    unfolding g by (auto intro: rtrancl_into_rtrancl)
  ultimately show ?thesis by (simp add: closedGroups_def)
qed

lemma closedGroups_back:
  assumes "closedGroups b sz c D" and "k' \<in> D" and "(k, k') \<in> stoneStep b c sz"
    and "map_of b k = Some c" and "onBoard sz k"
  shows "k \<in> D"
proof -
  from assms(3) have "k' \<in> set (getNeighbors (fst k) (snd k) sz)"
    by (simp add: stoneStep_def)
  from neighbor_sym [OF assms(5) this] assms(4) have "(k', k) \<in> stoneStep b c sz"
    by (simp add: stoneStep_def)
  with assms(1,2) show ?thesis unfolding closedGroups_def by blast
qed

lemma capturedSet_snoc:
  "capturedSet b sz opp (ns @ [n]) =
     capturedSet b sz opp ns \<union>
     (if map_of b n = Some opp then
        (case getGroup b (fst n) (snd n) sz of
           None \<Rightarrow> {}
         | Some g \<Rightarrow> if countLiberties b g sz = 0 then set g else {})
      else {})"
  by (simp add: capturedSet_def Un_commute)

lemma closedGroups_capturedSet:
  assumes "\<forall>n \<in> set ns. onBoard sz n"
  shows "closedGroups b sz opp (capturedSet b sz opp ns)"
  using assms
proof (induction ns rule: rev_induct)
  case Nil
  show ?case by (simp add: capturedSet_def closedGroups_empty)
next
  case (snoc n ns)
  hence ih: "closedGroups b sz opp (capturedSet b sz opp ns)" and n: "onBoard sz n"
    by simp_all
  show ?case
    unfolding capturedSet_snoc
    using ih closedGroups_group [of b n opp sz, OF _ n]
    by (auto intro!: closedGroups_Un simp: closedGroups_empty split: option.splits)
qed


lemma group_unchanged:
  assumes cl: "closedGroups nb sz c D"
    and ag: "removedFrom nb D bcur"
    and n: "onBoard sz n" "map_of bcur n = Some c"
  shows "(stoneStep bcur c sz)\<^sup>* `` {n} = (stoneStep nb c sz)\<^sup>* `` {n}"
    and "(stoneStep nb c sz)\<^sup>* `` {n} \<inter> D = {}"
proof -
  let ?R = "stoneStep nb c sz" and ?R' = "stoneStep bcur c sz"
  from removedFromD [OF ag, of n] n(2) have nD: "n \<notin> D" and nc: "map_of nb n = Some c"
    by (simp_all split: if_splits)
  have sub: "?R' \<subseteq> ?R"
  proof
    fix e assume e: "e \<in> ?R'"
    with removedFromD [OF ag, of "snd e"] show "e \<in> ?R"
      by (cases e) (simp add: stoneStep_def split: if_splits)
  qed
  have key: "(n, z) \<in> ?R'\<^sup>* \<and> z \<notin> D" if "(n, z) \<in> ?R\<^sup>*" for z
    using that
  proof (induction rule: rtrancl_induct)
    case base
    show ?case using nD by simp
  next
    case (step a z)
    from step.hyps(1) have ab: "onBoard sz a" and ac: "map_of nb a = Some c"
      using reach_onBoard [OF _ n(1)] stoneStep_colour [OF _ nc] by blast+
    have "z \<notin> D"
    proof
      assume "z \<in> D"
      from closedGroups_back [OF cl this step.hyps(2) ac ab] step.IH show False by simp
    qed
    moreover from this step.hyps(2) removedFromD [OF ag, of z] have "(a, z) \<in> ?R'"
      by (simp add: stoneStep_def)
    ultimately show ?case using step.IH by (auto intro: rtrancl_into_rtrancl)
  qed
  show "?R'\<^sup>* `` {n} = ?R\<^sup>* `` {n}"
    using key rtrancl_mono [OF sub] by blast
  show "?R\<^sup>* `` {n} \<inter> D = {}"
    using key by blast
qed

lemma liberties_unchanged:
  assumes cl: "closedGroups nb sz c D"
    and ag: "removedFrom nb D bcur"
    and G: "\<forall>k \<in> set g. onBoard sz k \<and> map_of nb k = Some c \<and> k \<notin> D"
    and eq: "set g' = set g"
  shows "countLiberties bcur g' sz = countLiberties nb g sz"
proof -
  have "map_of bcur m = None \<longleftrightarrow> map_of nb m = None"
    if "k \<in> set g" "m \<in> set (getNeighbors (fst k) (snd k) sz)" for k m
  proof (cases "m \<in> D")
    case False
    with removedFromD [OF ag, of m] show ?thesis by simp
  next
    case True
    from cl True have "map_of nb m = Some c" by (simp add: closedGroups_def)
    with that(2) have "(k, m) \<in> stoneStep nb c sz" by (simp add: stoneStep_def)
    from closedGroups_back [OF cl True this] G that(1) show ?thesis by blast
  qed
  hence "{m. \<exists>k \<in> set g'. m \<in> set (getNeighbors (fst k) (snd k) sz) \<and> map_of bcur m = None}
       = {m. \<exists>k \<in> set g. m \<in> set (getNeighbors (fst k) (snd k) sz) \<and> map_of nb m = None}"
    unfolding eq by blast
  thus ?thesis by (simp add: countLiberties_card)
qed

lemma liveCapture_step:
  assumes on: "\<forall>m \<in> set done. onBoard sz m" "onBoard sz n"
    and ag: "removedFrom nb (capturedSet nb sz opp done) bcur"
    and cnt: "cnt = card (capturedSet nb sz opp done)"
    and res: "liveCapture sz opp n (bcur, cnt) = (b', cnt')"
  shows "removedFrom nb (capturedSet nb sz opp (done @ [n])) b'
         \<and> cnt' = card (capturedSet nb sz opp (done @ [n]))"
proof -
  let ?D = "capturedSet nb sz opp done"
  let ?R = "stoneStep nb opp sz"
  have cl: "closedGroups nb sz opp ?D"
    by (rule closedGroups_capturedSet [OF on(1)])
  show ?thesis
  proof (cases "map_of bcur n = Some opp")
    case False
    hence same: "b' = bcur" "cnt' = cnt"
      using res by (simp_all add: liveCapture_def)
    have "capturedSet nb sz opp (done @ [n]) = ?D"
    proof (cases "map_of nb n = Some opp")
      case False
      thus ?thesis by (simp add: capturedSet_snoc)
    next
      case True
      with False removedFromD [OF ag, of n] have nD: "n \<in> ?D" by (simp split: if_splits)
      from getGroup_set [OF True, of sz] obtain g where
        g: "getGroup nb (fst n) (snd n) sz = Some g" "set g = ?R\<^sup>* `` {n}"
        by blast
      have "z \<in> ?D" if "(n, z) \<in> ?R\<^sup>*" for z
        using that
      proof (induction rule: rtrancl_induct)
        case base
        show ?case by (rule nD)
      next
        case (step a z)
        with cl show ?case unfolding closedGroups_def by blast
      qed
      with g(2) have "set g \<subseteq> ?D" by blast
      with g(1) True show ?thesis by (auto simp: capturedSet_snoc)
    qed
    with same ag cnt show ?thesis by simp
  next
    case True
    with removedFromD [OF ag, of n] have nD: "n \<notin> ?D" and nc: "map_of nb n = Some opp"
      by (simp_all split: if_splits)
    from getGroup_set [OF nc, of sz] obtain g where
      g: "getGroup nb (fst n) (snd n) sz = Some g" "set g = ?R\<^sup>* `` {n}"
      by blast
    from getGroup_set [OF True, of sz] obtain g' where
      g': "getGroup bcur (fst n) (snd n) sz = Some g'"
          "set g' = (stoneStep bcur opp sz)\<^sup>* `` {n}" "distinct g'"
      by blast
    note gu = group_unchanged [OF cl ag on(2) True]
    from gu(1) g(2) g'(2) have eq: "set g' = set g" by simp
    from gu(2) g(2) have disj: "set g \<inter> ?D = {}" by simp
    have G: "\<forall>k \<in> set g. onBoard sz k \<and> map_of nb k = Some opp \<and> k \<notin> ?D"
      using g(2) disj stoneStep_colour [OF _ nc] reach_onBoard [OF _ on(2)] by blast
    have lib: "countLiberties bcur g' sz = countLiberties nb g sz"
      by (rule liberties_unchanged [OF cl ag G eq])
    show ?thesis
    proof (cases "countLiberties nb g sz = 0")
      case False
      with lib True g'(1) res have "b' = bcur" "cnt' = cnt"
        by (simp_all add: liveCapture_def)
      moreover from False g(1) nc have "capturedSet nb sz opp (done @ [n]) = ?D"
        by (simp add: capturedSet_snoc)
      ultimately show ?thesis using ag cnt by simp
    next
      case zero: True
      with lib True g'(1) res
      have r: "b' = fold AList.delete g' bcur" "cnt' = cnt + length g'"
        by (simp_all add: liveCapture_def fold_delete_count)
      from zero g(1) nc have D': "capturedSet nb sz opp (done @ [n]) = ?D \<union> set g"
        by (simp add: capturedSet_snoc)
      have fin: "finite ?D" using cl by (simp add: closedGroups_def)
      have "length g' = card (set g)"
        using g'(3) eq by (metis distinct_card)
      hence "cnt' = card (?D \<union> set g)"
        using r(2) cnt fin disj by (simp add: card_Un_disjoint Int_commute)
      moreover have "removedFrom nb (?D \<union> set g) b'"
        using eq by (intro removedFromI) (simp add: r(1) map_of_fold_delete removedFromD [OF ag])
      ultimately show ?thesis unfolding D' by simp
    qed
  qed
qed

lemma fold_liveCapture_spec:
  assumes "\<forall>m \<in> set done. onBoard sz m" and "\<forall>m \<in> set ns. onBoard sz m"
    and "removedFrom nb (capturedSet nb sz opp done) bcur"
    and "cnt = card (capturedSet nb sz opp done)"
    and "fold (liveCapture sz opp) ns (bcur, cnt) = (b', cnt')"
  shows "removedFrom nb (capturedSet nb sz opp (done @ ns)) b'
         \<and> cnt' = card (capturedSet nb sz opp (done @ ns))"
  using assms
proof (induction ns arbitrary: "done" bcur cnt)
  case Nil
  then show ?case by simp
next
  case (Cons n ns)
  obtain b1 c1 where st: "liveCapture sz opp n (bcur, cnt) = (b1, c1)"
    by (cases "liveCapture sz opp n (bcur, cnt)") auto
  from Cons.prems(2) have n: "onBoard sz n" and ns: "\<forall>m \<in> set ns. onBoard sz m"
    by simp_all
  from liveCapture_step [OF Cons.prems(1) n Cons.prems(3,4) st]
  have 1: "removedFrom nb (capturedSet nb sz opp (done @ [n])) b1"
    and 2: "c1 = card (capturedSet nb sz opp (done @ [n]))"
    by simp_all
  have d: "\<forall>m \<in> set (done @ [n]). onBoard sz m"
    using Cons.prems(1) n by simp
  from Cons.prems(5) st have f: "fold (liveCapture sz opp) ns (b1, c1) = (b', cnt')"
    by simp
  from Cons.IH [OF d ns 1 2 f] show ?case by simp
qed

lemma placeAndCapture_spec:
  assumes "onBoard (boardSize s) (x, y)"
  shows "removedFrom (placed s x y) (capturedBy s x y) (fst (placeAndCapture s x y)) \<and>
         snd (placeAndCapture s x y) = card (capturedBy s x y)"
proof -
  let ?sz = "boardSize s" and ?opp = "opponentOf (turn s)"
  obtain b' k' where pc: "placeAndCapture s x y = (b', k')"
    by (cases "placeAndCapture s x y") auto
  hence f: "fold (liveCapture ?sz ?opp) (getNeighbors x y ?sz) (placed s x y, 0) = (b', k')"
    by (simp add: placeAndCapture_def placed_def)
  have ns: "\<forall>m \<in> set (getNeighbors x y ?sz). onBoard ?sz m"
    using getNeighbors_onBoard [OF assms] by simp
  have e: "capturedSet (placed s x y) ?sz ?opp [] = {}"
    by (simp add: capturedSet_def)
  have 0: "removedFrom (placed s x y) (capturedSet (placed s x y) ?sz ?opp []) (placed s x y)"
    unfolding e by (rule removedFromI) simp
  have 1: "(0 :: nat) = card (capturedSet (placed s x y) ?sz ?opp [])"
    unfolding e by simp
  from fold_liveCapture_spec [OF _ ns 0 1 f] pc show ?thesis
    by (simp add: capturedBy_def)
qed

lemma linked_stoneStep: "linked b sz c \<subseteq> stoneStep b c sz"
proof
  fix e assume e: "e \<in> linked b sz c"
  obtain p q where pq: "e = (p, q)" by (cases e)
  with e have h: "onBoard sz p" "onBoard sz q" "adjacent p q" "map_of b q = Some c"
    by (simp_all add: linked_def)
  from getNeighbors_onBoard [of sz "fst p" "snd p"] h(1,2,3)
  have "q \<in> set (getNeighbors (fst p) (snd p) sz)" by simp
  with h(4) pq show "e \<in> stoneStep b c sz" by (simp add: stoneStep_def)
qed

lemma stoneGroup_reach:
  assumes "onBoard sz p" and "map_of b p = Some c"
  shows "(stoneStep b c sz)\<^sup>* `` {p} = stoneGroup b sz c p"
proof -
  have fwd: "(p, z) \<in> (linked b sz c)\<^sup>*" if "(p, z) \<in> (stoneStep b c sz)\<^sup>*" for z
    using that
  proof (induction rule: rtrancl_induct)
    case base
    show ?case by simp
  next
    case (step a z)
    from step.hyps(1) have ab: "onBoard sz a" and ac: "map_of b a = Some c"
      using reach_onBoard [OF _ assms(1)] stoneStep_colour [OF _ assms(2)] by blast+
    from step.hyps(2) have zn: "z \<in> set (getNeighbors (fst a) (snd a) sz)"
      and zc: "map_of b z = Some c"
      by (simp_all add: stoneStep_def)
    from getNeighbors_onBoard [of sz "fst a" "snd a"] ab zn
    have "onBoard sz z" "adjacent a z" by simp_all
    with ab ac zc have "(a, z) \<in> linked b sz c" by (simp add: linked_def)
    with step.IH show ?case by (rule rtrancl_into_rtrancl)
  qed
  have bwd: "(p, z) \<in> (stoneStep b c sz)\<^sup>*" if "(p, z) \<in> (linked b sz c)\<^sup>*" for z
    using that rtrancl_mono [OF linked_stoneStep] by blast
  show ?thesis
    unfolding stoneGroup_def using fwd bwd by blast
qed

lemma getGroup_stoneGroup:
  assumes "onBoard sz p" and "map_of b p = Some c"
  shows "\<exists>g. getGroup b (fst p) (snd p) sz = Some g \<and> distinct g \<and>
             set g = stoneGroup b sz c p"
  using getGroup_set [OF assms(2), of sz] stoneGroup_reach [OF assms] by auto

lemma stoneGroup_members:
  assumes "onBoard sz p" and "map_of b p = Some c" and "k \<in> stoneGroup b sz c p"
  shows "onBoard sz k \<and> map_of b k = Some c"
proof -
  from assms(3) stoneGroup_reach [OF assms(1,2)] have "(p, k) \<in> (stoneStep b c sz)\<^sup>*"
    by blast
  with reach_onBoard [OF _ assms(1)] stoneStep_colour [OF _ assms(2)] show ?thesis by blast
qed

lemma liberties_libertySet:
  assumes "\<forall>k \<in> set g. onBoard sz k"
  shows "{n. \<exists>k \<in> set g. n \<in> set (getNeighbors (fst k) (snd k) sz) \<and> map_of b n = None}
           = libertySet b sz (set g)"
proof -
  have "\<forall>k \<in> set g. set (getNeighbors (fst k) (snd k) sz) = {n. onBoard sz n \<and> adjacent k n}"
    using assms getNeighbors_onBoard [of sz] by (auto simp del: split_paired_All)
  thus ?thesis unfolding libertySet_def by auto
qed

lemma countLiberties_libertySet:
  assumes "\<forall>k \<in> set g. onBoard sz k"
  shows "countLiberties b g sz = card (libertySet b sz (set g))"
    and "countLiberties b g sz = 0 \<longleftrightarrow> libertySet b sz (set g) = {}"
proof -
  let ?L = "{n. \<exists>k \<in> set g. n \<in> set (getNeighbors (fst k) (snd k) sz) \<and> map_of b n = None}"
  have "?L \<subseteq> (\<Union>k \<in> set g. set (getNeighbors (fst k) (snd k) sz))" by blast
  moreover have "finite (\<Union>k \<in> set g. set (getNeighbors (fst k) (snd k) sz))" by simp
  ultimately have fin: "finite ?L" by (rule finite_subset)
  show 1: "countLiberties b g sz = card (libertySet b sz (set g))"
    unfolding countLiberties_card liberties_libertySet [OF assms] ..
  from fin have "finite (libertySet b sz (set g))"
    unfolding liberties_libertySet [OF assms] .
  thus "countLiberties b g sz = 0 \<longleftrightarrow> libertySet b sz (set g) = {}"
    unfolding 1 by simp
qed

lemma capturedSet_deadStones:
  assumes "onBoard sz (x, y)"
  shows "capturedSet b sz opp (getNeighbors x y sz) = deadStones b sz opp (x, y)"
proof -
  have ns: "set (getNeighbors x y sz) = {n. onBoard sz n \<and> adjacent (x, y) n}"
    by (rule getNeighbors_onBoard [OF assms])
  have each: "(case getGroup b (fst n) (snd n) sz of None \<Rightarrow> {}
               | Some g \<Rightarrow> if countLiberties b g sz = 0 then set g else {})
             = (if libertySet b sz (stoneGroup b sz opp n) = {} then stoneGroup b sz opp n else {})"
    if n: "onBoard sz n" "map_of b n = Some opp" for n
  proof -
    from getGroup_stoneGroup [OF n] obtain g where
      g: "getGroup b (fst n) (snd n) sz = Some g" "set g = stoneGroup b sz opp n"
      by blast
    have "\<forall>k \<in> set g. onBoard sz k"
      using g(2) stoneGroup_members [OF n] by blast
    from countLiberties_libertySet(2) [OF this, of b] g show ?thesis by simp
  qed
  show ?thesis
  proof (rule set_eqI)
    fix k
    show "k \<in> capturedSet b sz opp (getNeighbors x y sz) \<longleftrightarrow> k \<in> deadStones b sz opp (x, y)"
    proof
      assume "k \<in> capturedSet b sz opp (getNeighbors x y sz)"
      then obtain n where n: "n \<in> set (getNeighbors x y sz)" "map_of b n = Some opp"
        and k: "k \<in> (case getGroup b (fst n) (snd n) sz of None \<Rightarrow> {}
               | Some g \<Rightarrow> if countLiberties b g sz = 0 then set g else {})"
        unfolding capturedSet_def by (auto split: if_splits)
      from n(1) ns have nb: "onBoard sz n" "adjacent (x, y) n" by simp_all
      from k each [OF nb(1) n(2)]
      have "libertySet b sz (stoneGroup b sz opp n) = {}" "k \<in> stoneGroup b sz opp n"
        by (simp_all split: if_splits)
      with nb n(2) show "k \<in> deadStones b sz opp (x, y)"
        unfolding deadStones_def by blast
    next
      assume "k \<in> deadStones b sz opp (x, y)"
      then obtain n where n: "onBoard sz n" "adjacent (x, y) n" "map_of b n = Some opp"
        "libertySet b sz (stoneGroup b sz opp n) = {}" "k \<in> stoneGroup b sz opp n"
        unfolding deadStones_def by blast
      from n(1,2) ns have mem: "n \<in> set (getNeighbors x y sz)" by simp
      from each [OF n(1,3)] n(4,5)
      have "k \<in> (case getGroup b (fst n) (snd n) sz of None \<Rightarrow> {}
               | Some g \<Rightarrow> if countLiberties b g sz = 0 then set g else {})"
        by simp
      with mem n(3) show "k \<in> capturedSet b sz opp (getNeighbors x y sz)"
        unfolding capturedSet_def by auto
    qed
  qed
qed

lemma sideAtari_reached:
  "playAll (initialRecorder 9) [(0, 1), (0, 0), (1, 1), (1, 0)] = Some sideAtari"
  by code_simp

text \<open>
  Claim C2. When a click on an on-board cell is accepted, every opponent stone that is
  4-directionally adjacent to the new stone and whose group (the stones linked to it by
  chains of adjacent opponent stones) has no liberty on the post-placement board has that
  whole group removed. The flood fill returns exactly that group, once each, and its
  liberty count is zero exactly when the group has no liberty. The resulting board is the
  post-placement board with exactly the dead stones emptied, all of them opponent stones,
  and the capture count recorded in the move (and added to the mover's tally) is their
  number. In the position after Black (1,0), White (0,0), Black's click on (0,1) fills the
  last liberty of the White stone: the stone is removed and the move records one capture.
\<close>

theorem capture_resolution:
  assumes "onBoard (boardSize s) (x, y)" and "handleBoardClick s x y = (Accepted, s')"
  shows "(\<forall>n c. onBoard (boardSize s) n \<and> map_of (placed s x y) n = Some c \<longrightarrow>
            (\<exists>g. getGroup (placed s x y) (fst n) (snd n) (boardSize s) = Some g \<and>
                 distinct g \<and>
                 set g = stoneGroup (placed s x y) (boardSize s) c n \<and>
                 (countLiberties (placed s x y) g (boardSize s) = 0 \<longleftrightarrow>
                    libertySet (placed s x y) (boardSize s)
                      (stoneGroup (placed s x y) (boardSize s) c n) = {}))) \<and>
         (\<forall>n. onBoard (boardSize s) n \<and> adjacent (x, y) n \<and>
              map_of (placed s x y) n = Some (opponentOf (turn s)) \<and>
              libertySet (placed s x y) (boardSize s)
                (stoneGroup (placed s x y) (boardSize s) (opponentOf (turn s)) n) = {}
              \<longrightarrow> (\<forall>k \<in> stoneGroup (placed s x y) (boardSize s) (opponentOf (turn s)) n.
                     map_of (board s') k = None)) \<and>
         (\<forall>k. map_of (board s') k =
                (if k \<in> deadStones (placed s x y) (boardSize s) (opponentOf (turn s)) (x, y)
                 then None else map_of (placed s x y) k)) \<and>
         (\<forall>k \<in> deadStones (placed s x y) (boardSize s) (opponentOf (turn s)) (x, y).
              map_of (placed s x y) k = Some (opponentOf (turn s))) \<and>
         mv_captures (last (moves s')) =
           Some (card (deadStones (placed s x y) (boardSize s) (opponentOf (turn s)) (x, y))) \<and>
         captures s' =
           addCaptures (turn s)
             (card (deadStones (placed s x y) (boardSize s) (opponentOf (turn s)) (x, y)))
             (captures s) \<and>
         (\<exists>t. handleBoardClick cornerAtari 0 1 = (Accepted, t) \<and>
              map_of (board t) (0, 0) = None \<and>
              mv_captures (last (moves t)) = Some 1 \<and> black (captures t) = 1)"
proof -
  let ?P = "placed s x y" and ?sz = "boardSize s" and ?opp = "opponentOf (turn s)"
  let ?D = "deadStones ?P ?sz ?opp (x, y)"
  note f = accepted_fields [OF assms(2)]
  have cb: "capturedBy s x y = ?D"
    unfolding capturedBy_def by (rule capturedSet_deadStones [OF assms(1)])
  note pc = placeAndCapture_spec [OF assms(1), unfolded cb]
  have 0: "\<forall>n c. onBoard ?sz n \<and> map_of ?P n = Some c \<longrightarrow>
            (\<exists>g. getGroup ?P (fst n) (snd n) ?sz = Some g \<and> distinct g \<and>
                 set g = stoneGroup ?P ?sz c n \<and>
                 (countLiberties ?P g ?sz = 0 \<longleftrightarrow>
                    libertySet ?P ?sz (stoneGroup ?P ?sz c n) = {}))"
  proof (intro allI impI)
    fix n c assume n: "onBoard ?sz n \<and> map_of ?P n = Some c"
    hence nb: "onBoard ?sz n" and nc: "map_of ?P n = Some c" by simp_all
    from getGroup_stoneGroup [OF nb nc] obtain g where
      g: "getGroup ?P (fst n) (snd n) ?sz = Some g" "distinct g" "set g = stoneGroup ?P ?sz c n"
      by blast
    have "\<forall>k \<in> set g. onBoard ?sz k"
      using g(3) stoneGroup_members [OF nb nc] by blast
    from countLiberties_libertySet(2) [OF this, of ?P] g
    show "\<exists>g. getGroup ?P (fst n) (snd n) ?sz = Some g \<and> distinct g \<and>
                 set g = stoneGroup ?P ?sz c n \<and>
                 (countLiberties ?P g ?sz = 0 \<longleftrightarrow>
                    libertySet ?P ?sz (stoneGroup ?P ?sz c n) = {})"
      by simp
  qed
  have rf: "removedFrom ?P ?D (board s')"
    using pc f(1) by simp
  have 2: "\<forall>k. map_of (board s') k = (if k \<in> ?D then None else map_of ?P k)"
    using rf by (simp add: removedFrom_def)
  have 1: "\<forall>n. onBoard ?sz n \<and> adjacent (x, y) n \<and> map_of ?P n = Some ?opp \<and>
              libertySet ?P ?sz (stoneGroup ?P ?sz ?opp n) = {}
              \<longrightarrow> (\<forall>k \<in> stoneGroup ?P ?sz ?opp n. map_of (board s') k = None)"
  proof (intro allI impI ballI)
    fix n k
    assume n: "onBoard ?sz n \<and> adjacent (x, y) n \<and> map_of ?P n = Some ?opp \<and>
              libertySet ?P ?sz (stoneGroup ?P ?sz ?opp n) = {}"
      and k: "k \<in> stoneGroup ?P ?sz ?opp n"
    hence "k \<in> ?D" unfolding deadStones_def by blast
    with removedFromD [OF rf, of k] show "map_of (board s') k = None" by simp
  qed
  have 3: "\<forall>k \<in> ?D. map_of ?P k = Some ?opp"
  proof
    fix k assume "k \<in> ?D"
    then obtain n where "onBoard ?sz n" "map_of ?P n = Some ?opp" "k \<in> stoneGroup ?P ?sz ?opp n"
      unfolding deadStones_def by blast
    from stoneGroup_members [OF this] show "map_of ?P k = Some ?opp" by simp
  qed
  have 4: "mv_captures (last (moves s')) = Some (card ?D)"
    using pc f(2) by simp
  have 5: "captures s' = addCaptures (turn s) (card ?D) (captures s)"
    using pc f(3) by simp
  have "handleBoardClick cornerAtari 0 1 =
     (Accepted,
      \<lparr>moves = [\<lparr>mv_x = 1, mv_y = 0, mv_color = Black, mv_captures = Some 0\<rparr>,
                \<lparr>mv_x = 0, mv_y = 0, mv_color = White, mv_captures = Some 0\<rparr>,
                \<lparr>mv_x = 0, mv_y = 1, mv_color = Black, mv_captures = Some 1\<rparr>],
       board = [((1, 0), Black), ((0, 1), Black)],
       captures = \<lparr>black = 1, white = 0\<rparr>, turn = White, boardSize = 9\<rparr>)"
    by code_simp
  hence 6: "\<exists>t. handleBoardClick cornerAtari 0 1 = (Accepted, t) \<and>
              map_of (board t) (0, 0) = None \<and>
              mv_captures (last (moves t)) = Some 1 \<and> black (captures t) = 1"
    by simp
  from 0 1 2 3 4 5 6 show ?thesis by blast
qed

theorem capture_resolution_witness:
  "onBoard (boardSize sideAtari) (2, 0) \<and>
   handleBoardClick sideAtari 2 0 =
     (Accepted,
      \<lparr>moves = [\<lparr>mv_x = 0, mv_y = 1, mv_color = Black, mv_captures = Some 0\<rparr>,
                \<lparr>mv_x = 0, mv_y = 0, mv_color = White, mv_captures = Some 0\<rparr>,
                \<lparr>mv_x = 1, mv_y = 1, mv_color = Black, mv_captures = Some 0\<rparr>,
                \<lparr>mv_x = 1, mv_y = 0, mv_color = White, mv_captures = Some 0\<rparr>,
                \<lparr>mv_x = 2, mv_y = 0, mv_color = Black, mv_captures = Some 2\<rparr>],
       board = [((0, 1), Black), ((1, 1), Black), ((2, 0), Black)],
       captures = \<lparr>black = 2, white = 0\<rparr>, turn = White, boardSize = 9\<rparr>) \<and>
   onBoard 9 (1, 0) \<and> adjacent (2, 0) (1, 0) \<and>
   map_of (placed sideAtari 2 0) (1, 0) = Some White \<and>
   getGroup (placed sideAtari 2 0) 1 0 9 = Some [(1, 0), (0, 0)] \<and>
   stoneGroup (placed sideAtari 2 0) 9 White (1, 0) = {(1, 0), (0, 0)} \<and>
   libertySet (placed sideAtari 2 0) 9 (stoneGroup (placed sideAtari 2 0) 9 White (1, 0)) = {} \<and>
   deadStones (placed sideAtari 2 0) 9 White (2, 0) = {(1, 0), (0, 0)} \<and>
   card (deadStones (placed sideAtari 2 0) 9 White (2, 0)) = 2"
proof -
  let ?P = "placed sideAtari 2 0"
  have bs: "boardSize sideAtari = 9" and tn: "opponentOf (turn sideAtari) = White"
    by (simp_all add: sideAtari_def opponentOf_def)
  have h1: "onBoard (boardSize sideAtari) (2, 0)"
    by (simp add: onBoard_def sideAtari_def)
  have h2: "handleBoardClick sideAtari 2 0 =
     (Accepted,
      \<lparr>moves = [\<lparr>mv_x = 0, mv_y = 1, mv_color = Black, mv_captures = Some 0\<rparr>,
                \<lparr>mv_x = 0, mv_y = 0, mv_color = White, mv_captures = Some 0\<rparr>,
                \<lparr>mv_x = 1, mv_y = 1, mv_color = Black, mv_captures = Some 0\<rparr>,
                \<lparr>mv_x = 1, mv_y = 0, mv_color = White, mv_captures = Some 0\<rparr>,
                \<lparr>mv_x = 2, mv_y = 0, mv_color = Black, mv_captures = Some 2\<rparr>],
       board = [((0, 1), Black), ((1, 1), Black), ((2, 0), Black)],
       captures = \<lparr>black = 2, white = 0\<rparr>, turn = White, boardSize = 9\<rparr>)"
    by code_simp
  have n1: "onBoard 9 (1, 0)" by (simp add: onBoard_def)
  have n2: "adjacent (2, 0) (1, 0)" by (simp add: adjacent_def)
  have n3: "map_of ?P (1, 0) = Some White" by code_simp
  have n4: "getGroup ?P 1 0 9 = Some [(1, 0), (0, 0)]" by code_simp
  have n5: "countLiberties ?P [(1, 0), (0, 0)] 9 = 0" by code_simp
  note t = capture_resolution [OF h1 h2, unfolded bs tn]
  from conjunct1 [OF t, THEN spec, THEN spec, of "(1, 0)" White] n1 n3
  have "\<exists>g. getGroup ?P 1 0 9 = Some g \<and> distinct g \<and>
            set g = stoneGroup ?P 9 White (1, 0) \<and>
            (countLiberties ?P g 9 = 0 \<longleftrightarrow>
               libertySet ?P 9 (stoneGroup ?P 9 White (1, 0)) = {})"
    by simp
  then obtain g where
    g0: "getGroup ?P 1 0 9 = Some g \<and> distinct g \<and>
         set g = stoneGroup ?P 9 White (1, 0) \<and>
         (countLiberties ?P g 9 = 0 \<longleftrightarrow>
            libertySet ?P 9 (stoneGroup ?P 9 White (1, 0)) = {})" ..
  note g = conjunct1 [OF g0] conjunct1 [OF conjunct2 [OF conjunct2 [OF g0]]]
    conjunct2 [OF conjunct2 [OF conjunct2 [OF g0]]]
  from g(1) n4 have geq: "g = [(1, 0), (0, 0)]" by simp
  from g(2) geq have sg: "stoneGroup ?P 9 White (1, 0) = {(1, 0), (0, 0)}" by simp
  from g(3) geq n5 have ls: "libertySet ?P 9 (stoneGroup ?P 9 White (1, 0)) = {}" by simp
  have sub: "{(1, 0), (0, 0)} \<subseteq> deadStones ?P 9 White (2, 0)"
    unfolding deadStones_def using n1 n2 n3 ls sg by blast
  from t have c: "card (deadStones ?P 9 White (2, 0)) = 2" by simp
  hence fin: "finite (deadStones ?P 9 White (2, 0))"
    by (metis card.infinite zero_neq_numeral)
  have "card {(1 :: int, 0 :: int), (0, 0)} = 2" by simp
  with c have "card {(1 :: int, 0 :: int), (0, 0)} = card (deadStones ?P 9 White (2, 0))"
    by simp
  from card_subset_eq [OF fin sub this]
  have d: "deadStones ?P 9 White (2, 0) = {(1, 0), (0, 0)}" by simp
  from h1 h2 n1 n2 n3 n4 sg ls d c show ?thesis by simp
qed

end
